theory Spec2Isabelle
  imports Main "HOL-Library.Word" "HOL-Library.AList"
begin

section \<open>Values, nodes and the trie handle\<close>

text \<open>
  The template functions of \<^verbatim>\<open>trie.cpp\<close> are instantiated explicitly for five value
  types: \<^verbatim>\<open>uint32_t\<close>, \<^verbatim>\<open>uint64_t\<close>, \<^verbatim>\<open>std::string\<close>,
  \<^verbatim>\<open>Integer = std::unique_ptr<uint32_t>\<close> and \<^verbatim>\<open>MoveBlocked\<close>. A stored value is a
  member of the tagged union \<open>val\<close>; \<open>ty\<close> names the template argument. The class
  \<^verbatim>\<open>MoveBlocked\<close> is declared in the header \<^verbatim>\<open>primer/trie.h\<close>, so its payload is
  the type parameter \<open>'m\<close>.
\<close>

datatype ty = T_uint32 | T_uint64 | T_string | T_Integer | T_MoveBlocked

datatype 'm val =
    U32 "32 word"
  | U64 "64 word"
  | Str string
  | Integer "32 word option"
  | MoveBlocked 'm

fun type_of :: "'m val \<Rightarrow> ty" where
  "type_of (U32 _) = T_uint32"
| "type_of (U64 _) = T_uint64"
| "type_of (Str _) = T_string"
| "type_of (Integer _) = T_Integer"
| "type_of (MoveBlocked _) = T_MoveBlocked"

text \<open>
  A node is either a plain \<^verbatim>\<open>TrieNode\<close> (\<^verbatim>\<open>is_value_node_ == false\<close>) or a
  \<^verbatim>\<open>TrieNodeWithValue<T>\<close> (\<^verbatim>\<open>is_value_node_ == true\<close>) that holds a value besides its
  children. The member \<^verbatim>\<open>children_\<close> is a \<^verbatim>\<open>std::map<char, std::shared_ptr<const TrieNode>>\<close>;
  it is an association list read with \<open>map_of\<close>, written with \<open>AList.update\<close> and
  erased with \<open>AList.delete\<close>, so a key is bound to one child at most as far as any
  operation can see. The code never iterates over the map, so its order is not observable.
\<close>

datatype 'm node =
    TrieNode (children: "(char \<times> 'm node) list")
  | TrieNodeWithValue (children: "(char \<times> 'm node) list") (node_value: "'m val")

fun is_value_node :: "'m node \<Rightarrow> bool" where
  "is_value_node (TrieNode _) = False"
| "is_value_node (TrieNodeWithValue _ _) = True"

text \<open>Assigning to \<^verbatim>\<open>children_\<close> of a node keeps its class and its value.\<close>

fun set_children :: "'m node \<Rightarrow> (char \<times> 'm node) list \<Rightarrow> 'm node" where
  "set_children (TrieNode _) cs = TrieNode cs"
| "set_children (TrieNodeWithValue _ v) cs = TrieNodeWithValue cs v"

text \<open>
  Modelled from the spec: \<^verbatim>\<open>TrieNode::Clone\<close> and \<^verbatim>\<open>TrieNodeWithValue<T>::Clone\<close> are
  defined in the header \<^verbatim>\<open>primer/trie.h\<close>, which is not among the sources. A clone is a
  new node of the same class with the same children map (the children themselves are
  shared) and, for a value node, the same value.
\<close>

fun Clone :: "'m node \<Rightarrow> 'm node" where
  "Clone (TrieNode cs) = TrieNode cs"
| "Clone (TrieNodeWithValue cs v) = TrieNodeWithValue cs v"

text \<open>The handle: \<^verbatim>\<open>root_\<close> is a possibly null shared pointer.\<close>

datatype 'm trie = Trie (root: "'m node option")

section \<open>Get\<close>

text \<open>
  The \<^verbatim>\<open>for\<close> loop of \<^verbatim>\<open>Trie::Get\<close>: one step per symbol of the key, leaving with
  \<^verbatim>\<open>nullptr\<close> at the first symbol that has no child.
\<close>

fun get_walk :: "'m node \<Rightarrow> string \<Rightarrow> 'm node option" where
  "get_walk node [] = Some node"
| "get_walk node (i # key) =
     (case map_of (children node) i of
        Some it \<Rightarrow> get_walk it key
      | None \<Rightarrow> None)"

text \<open>
  \<^verbatim>\<open>dynamic_cast<const TrieNodeWithValue<T> *>\<close> succeeds exactly when the node was built
  as a \<^verbatim>\<open>TrieNodeWithValue<T>\<close> for the same \<^verbatim>\<open>T\<close>.
\<close>

fun dynamic_cast :: "ty \<Rightarrow> 'm node \<Rightarrow> 'm val option" where
  "dynamic_cast T (TrieNode _) = None"
| "dynamic_cast T (TrieNodeWithValue _ v) = (if type_of v = T then Some v else None)"

definition Get :: "ty \<Rightarrow> 'm trie \<Rightarrow> string \<Rightarrow> 'm val option" where
  "Get T t key =
     (case root t of
        None \<Rightarrow> None
      | Some r \<Rightarrow>
          (case get_walk r key of
             None \<Rightarrow> None
           | Some node \<Rightarrow>
               if is_value_node node then dynamic_cast T node else None))"

section \<open>Put\<close>

text \<open>
  The stack \<^verbatim>\<open>stack_vec\<close> is a list whose head is the top. In the first two loops the
  iterator \<^verbatim>\<open>it_key\<close> is the symbol it points at together with the symbols after it, so
  \<^verbatim>\<open>it_key + 1 != key.end()\<close> reads: the rest is not empty.

  First loop (lines 65 to 74): while the node \<^verbatim>\<open>*parent\<close> has a child for the current
  symbol, clone that child and push it; \<^verbatim>\<open>parent\<close> then points at the clone on top of
  the stack.
\<close>

fun put_match ::
  "'m node \<Rightarrow> char \<Rightarrow> string \<Rightarrow> (char \<times> 'm node) list
     \<Rightarrow> char \<times> string \<times> (char \<times> 'm node) list" where
  "put_match parent c [] stack_vec = (c, [], stack_vec)"
| "put_match parent c (c' # rest) stack_vec =
     (case map_of (children parent) c of
        Some child \<Rightarrow>
          (let slot = Clone child
           in put_match slot c' rest ((c, slot) # stack_vec))
      | None \<Rightarrow> (c, c' # rest, stack_vec))"

text \<open>Second loop (lines 77 to 81): a fresh plain node for every symbol but the last.\<close>

fun put_fresh ::
  "char \<Rightarrow> string \<Rightarrow> (char \<times> 'm node) list \<Rightarrow> char \<times> string \<times> (char \<times> 'm node) list" where
  "put_fresh c [] stack_vec = (c, [], stack_vec)"
| "put_fresh c (c' # rest) stack_vec = put_fresh c' rest ((c, TrieNode []) # stack_vec)"

text \<open>
  Third loop (lines 87 to 103). Here \<^verbatim>\<open>it_key\<close> is only compared with the end of the key,
  decremented and reset to \<^verbatim>\<open>key.begin()\<close>, so it is its offset from \<^verbatim>\<open>key.begin()\<close>
  and \<open>n\<close> is the length of the key. Both \<^verbatim>\<open>children_.at(key_char) = ...\<close> (the key is
  present, line 95) and \<^verbatim>\<open>children_.insert(...)\<close> (the key is absent, line 98) bind
  \<^verbatim>\<open>key_char\<close> to the new node, which is \<open>AList.update\<close>. The result is the pair of
  \<^verbatim>\<open>key_char\<close> and \<^verbatim>\<open>slot\<close> with which the loop is left.
\<close>

fun put_build ::
  "int \<Rightarrow> int \<Rightarrow> char \<Rightarrow> 'm node \<Rightarrow> (char \<times> 'm node) list \<Rightarrow> char \<times> 'm node" where
  "put_build n it_key key_char slot [] = (key_char, slot)"
| "put_build n it_key key_char slot ((c, top_node) # stack_vec) =
     (case map_of (children top_node) key_char of
        Some old \<Rightarrow>
          if it_key + 1 = n
          then put_build n (it_key - 1) c
                 (set_children top_node
                    (AList.update key_char (set_children slot (children old)) (children top_node)))
                 stack_vec
          else put_build n it_key c
                 (set_children top_node (AList.update key_char slot (children top_node)))
                 stack_vec
      | None \<Rightarrow>
          put_build n 0 c
            (set_children top_node (AList.update key_char slot (children top_node)))
            stack_vec)"

text \<open>
  \<^verbatim>\<open>Trie::Put\<close>. The two branches of the final \<^verbatim>\<open>if\<close> (lines 104 to 109) assign to an
  existing entry of the new root or insert a new one.
\<close>

fun Put :: "'m trie \<Rightarrow> string \<Rightarrow> 'm val \<Rightarrow> 'm trie" where
  "Put t [] v =
     (let new_root = (case root t of None \<Rightarrow> TrieNode [] | Some r \<Rightarrow> Clone r)
      in Trie (Some (TrieNodeWithValue (children new_root) v)))"
| "Put t (c # rest) v =
     (let new_root = (case root t of None \<Rightarrow> TrieNode [] | Some r \<Rightarrow> Clone r);
          (c1, rest1, stack1) = put_match new_root c rest [];
          (c2, rest2, stack2) = put_fresh c1 rest1 stack1;
          it_key = int (length (c # rest)) - 1 - int (length rest2);
          (key_char, slot) =
             put_build (int (length (c # rest))) it_key c2 (TrieNodeWithValue [] v) stack2
      in (case map_of (children new_root) key_char of
            Some _ \<Rightarrow>
              Trie (Some (set_children new_root
                            (AList.update key_char slot (children new_root))))
          | None \<Rightarrow>
              Trie (Some (set_children new_root
                            (AList.update key_char slot (children new_root))))))"

section \<open>Remove\<close>

text \<open>
  \<^verbatim>\<open>children_.at(k)\<close> throws \<^verbatim>\<open>std::out_of_range\<close> when \<^verbatim>\<open>k\<close> is absent, and
  \<^verbatim>\<open>stack_vec.top()\<close> on an empty stack is undefined behaviour. In \<^verbatim>\<open>Trie::Put\<close> every
  \<^verbatim>\<open>at\<close> stands under a \<^verbatim>\<open>find\<close> of the same key in the same map and every
  \<^verbatim>\<open>top\<close> under \<^verbatim>\<open>!stack_vec.empty()\<close>; in \<^verbatim>\<open>Trie::Remove\<close> they are not guarded,
  so \<open>Remove\<close> returns \<open>error + trie\<close> and both failures are results.
\<close>

datatype error = OutOfRange | EmptyStack

text \<open>
  The walk (lines 126 to 136): clone the child for each symbol and push it. \<open>Inr None\<close>
  is the early return of line 133, taken when a symbol has no child.
\<close>

fun rm_walk ::
  "string \<Rightarrow> (char \<times> 'm node) list \<Rightarrow> error + (char \<times> 'm node) list option" where
  "rm_walk [] stack_vec = Inr (Some stack_vec)"
| "rm_walk (c # rest) [] = Inl EmptyStack"
| "rm_walk (c # rest) ((tc, top_node) # stack_vec) =
     (case map_of (children top_node) c of
        Some child \<Rightarrow> rm_walk rest ((c, Clone child) # (tc, top_node) # stack_vec)
      | None \<Rightarrow> Inr None)"

text \<open>
  The inner loop (lines 149 to 157): while more than one entry is on the stack and the top
  node has neither children nor a value, pop it and erase it from the node below.
\<close>

function rm_prune :: "(char \<times> 'm node) list \<Rightarrow> (char \<times> 'm node) list" where
  "rm_prune ((char_key, top_node) # (pc, parent) # stack_vec) =
     (if children top_node = [] \<and> \<not> is_value_node top_node
      then rm_prune
             ((pc, set_children parent (AList.delete char_key (children parent))) # stack_vec)
      else (char_key, top_node) # (pc, parent) # stack_vec)"
| "rm_prune [x] = [x]"
| "rm_prune [] = []"
  by pat_completeness auto
termination
  by (relation "measure length") auto

text \<open>
  Lines 144 to 163, for a non-empty key: the top of the stack is the clone of the node the
  key addresses. A value node without children is popped and erased from its parent,
  and the inner loop runs; a value node with children is popped and replaced in its
  parent by a plain node with the same children; any other node is left alone.
\<close>

definition rm_delete :: "(char \<times> 'm node) list \<Rightarrow> error + (char \<times> 'm node) list" where
  "rm_delete stack_vec =
     (case stack_vec of
        [] \<Rightarrow> Inl EmptyStack
      | (char_key, top_node) # below \<Rightarrow>
          if is_value_node top_node then
            (if children top_node = [] then
               (case below of
                  [] \<Rightarrow> Inl EmptyStack
                | (pc, parent) # stack_vec' \<Rightarrow>
                    Inr (rm_prune
                      ((pc, set_children parent (AList.delete char_key (children parent)))
                       # stack_vec')))
             else
               (case below of
                  [] \<Rightarrow> Inl EmptyStack
                | (pc, parent) # stack_vec' \<Rightarrow>
                    (case map_of (children parent) char_key of
                       None \<Rightarrow> Inl OutOfRange
                     | Some _ \<Rightarrow>
                         Inr ((pc, set_children parent
                                 (AList.update char_key (TrieNode (children top_node))
                                    (children parent)))
                              # stack_vec'))))
          else Inr stack_vec)"

text \<open>The loop of lines 168 to 173: relink each popped node into the node below it.\<close>

fun rm_build :: "char \<Rightarrow> 'm node \<Rightarrow> (char \<times> 'm node) list \<Rightarrow> error + 'm node" where
  "rm_build key_char slot [] = Inr slot"
| "rm_build key_char slot ((c, top_node) # stack_vec) =
     (case map_of (children top_node) key_char of
        None \<Rightarrow> Inl OutOfRange
      | Some _ \<Rightarrow>
          rm_build c
            (set_children top_node (AList.update key_char slot (children top_node)))
            stack_vec)"

text \<open>Lines 165 to 179: rebuild from the stack, and return the empty trie for a dead root.\<close>

definition rm_finish :: "(char \<times> 'm node) list \<Rightarrow> error + 'm trie" where
  "rm_finish stack_vec =
     (case stack_vec of
        [] \<Rightarrow> Inl EmptyStack
      | (key_char, slot) # below \<Rightarrow>
          (case rm_build key_char slot below of
             Inl e \<Rightarrow> Inl e
           | Inr new_root \<Rightarrow>
               if \<not> is_value_node new_root \<and> children new_root = []
               then Inr (Trie None)
               else Inr (Trie (Some new_root))))"

text \<open>
  \<^verbatim>\<open>Trie::Remove\<close>. For the empty key with a root that has children, line 143 assigns a
  plain node to \<^verbatim>\<open>new_root\<close>, and line 174 then overwrites \<^verbatim>\<open>new_root\<close> with the
  clone of the root taken from the stack; the \<open>let\<close> below binds the node of line 143,
  which nothing reads.
\<close>

definition Remove :: "'m trie \<Rightarrow> string \<Rightarrow> error + 'm trie" where
  "Remove t key =
     (case root t of
        None \<Rightarrow> Inr (Trie None)
      | Some r \<Rightarrow>
          (case rm_walk key [(CHR ''a'', Clone r)] of
             Inl e \<Rightarrow> Inl e
           | Inr None \<Rightarrow> Inr (Trie (Some (Clone r)))
           | Inr (Some stack_vec) \<Rightarrow>
               if key = [] then
                 (if children r = [] then Inr (Trie None)
                  else (let new_root = TrieNode (children r) in rm_finish stack_vec))
               else
                 (case rm_delete stack_vec of
                    Inl e \<Rightarrow> Inl e
                  | Inr stack_vec' \<Rightarrow> rm_finish stack_vec')))"

section \<open>The nodes as objects in a store\<close>

text \<open>
  In the definitions above a \<^verbatim>\<open>std::shared_ptr<const TrieNode>\<close> is the node it points to,
  which determines every result of \<open>Get\<close>. Whether \<open>Put\<close> and \<open>Remove\<close> leave the
  receiver alone depends on which objects they write to, so the three functions are given
  a second time with the nodes as objects in a store: a pointer is an address, the
  children map of an object binds symbols to addresses, \<^verbatim>\<open>std::make_unique\<close> and
  \<^verbatim>\<open>Clone\<close> allocate a new object at the next free address, and an assignment to
  \<^verbatim>\<open>children_\<close> through a pointer overwrites the object at that address. Objects are
  never freed in this model: a node whose last owner is gone stays in the store. The stored
  values are never written to after construction and stay part of the object.
\<close>

type_synonym addr = nat

datatype 'm obj =
    TrieNodeObj (obj_children: "(char \<times> addr) list")
  | TrieNodeWithValueObj (obj_children: "(char \<times> addr) list") (obj_value: "'m val")

fun obj_is_value_node :: "'m obj \<Rightarrow> bool" where
  "obj_is_value_node (TrieNodeObj _) = False"
| "obj_is_value_node (TrieNodeWithValueObj _ _) = True"

fun obj_set_children :: "'m obj \<Rightarrow> (char \<times> addr) list \<Rightarrow> 'm obj" where
  "obj_set_children (TrieNodeObj _) cs = TrieNodeObj cs"
| "obj_set_children (TrieNodeWithValueObj _ v) cs = TrieNodeWithValueObj cs v"

fun obj_dynamic_cast :: "ty \<Rightarrow> 'm obj \<Rightarrow> 'm val option" where
  "obj_dynamic_cast T (TrieNodeObj _) = None"
| "obj_dynamic_cast T (TrieNodeWithValueObj _ v) = (if type_of v = T then Some v else None)"

record 'm store =
  objs :: "addr \<Rightarrow> 'm obj"
  next_addr :: addr

text \<open>
  Modelled from the spec: \<^verbatim>\<open>Clone\<close> is defined in the header \<^verbatim>\<open>primer/trie.h\<close>. It
  allocates a copy of the object: same class, same children map (the same addresses, so
  the children are shared) and the same value.
\<close>

definition alloc :: "'m obj \<Rightarrow> 'm store \<Rightarrow> addr \<times> 'm store" where
  "alloc ob s =
     (next_addr s, s\<lparr>objs := (objs s)(next_addr s := ob), next_addr := Suc (next_addr s)\<rparr>)"

definition Clone_s :: "addr \<Rightarrow> 'm store \<Rightarrow> addr \<times> 'm store" where
  "Clone_s a s = alloc (objs s a) s"

definition write_children :: "addr \<Rightarrow> (char \<times> addr) list \<Rightarrow> 'm store \<Rightarrow> 'm store" where
  "write_children a cs s = s\<lparr>objs := (objs s)(a := obj_set_children (objs s a) cs)\<rparr>"

definition children_at :: "'m store \<Rightarrow> addr \<Rightarrow> (char \<times> addr) list" where
  "children_at s a = obj_children (objs s a)"

text \<open>
\<^verbatim>\<open>Trie::Get\<close> on a store, for a root pointer that may be null.
\<close>

fun get_walk_s :: "'m store \<Rightarrow> addr \<Rightarrow> string \<Rightarrow> addr option" where
  "get_walk_s s node [] = Some node"
| "get_walk_s s node (i # key) =
     (case map_of (children_at s node) i of
        Some it \<Rightarrow> get_walk_s s it key
      | None \<Rightarrow> None)"

definition Get_s :: "ty \<Rightarrow> 'm store \<Rightarrow> addr option \<Rightarrow> string \<Rightarrow> 'm val option" where
  "Get_s T s root_ptr key =
     (case root_ptr of
        None \<Rightarrow> None
      | Some r \<Rightarrow>
          (case get_walk_s s r key of
             None \<Rightarrow> None
           | Some node \<Rightarrow>
               if obj_is_value_node (objs s node) then obj_dynamic_cast T (objs s node)
               else None))"

text \<open>
  \<^verbatim>\<open>Trie::Put\<close> on a store, loop by loop as above. The stack holds the addresses of the
  clones and fresh nodes, which the \<^verbatim>\<open>std::unique_ptr\<close>s on \<^verbatim>\<open>stack_vec\<close> own;
  \<^verbatim>\<open>parent\<close> is the address of the node it points to. Every write goes through such a
  pointer: \<^verbatim>\<open>slot->children_ = ...\<close> (line 92), \<^verbatim>\<open>stack_vec.top().second->children_\<close>
  (lines 95 and 98) and \<^verbatim>\<open>new_root->children_\<close> (lines 106 and 108). The node made in
  line 50 is allocated first also when the root is not null and line 52 replaces it by
  the clone of the root.
\<close>

fun put_match_s ::
  "addr \<Rightarrow> char \<Rightarrow> string \<Rightarrow> (char \<times> addr) list \<Rightarrow> 'm store
     \<Rightarrow> (char \<times> string \<times> (char \<times> addr) list) \<times> 'm store" where
  "put_match_s parent c [] stack_vec s = ((c, [], stack_vec), s)"
| "put_match_s parent c (c' # rest) stack_vec s =
     (case map_of (children_at s parent) c of
        Some child \<Rightarrow>
          (case Clone_s child s of
             (slot, s') \<Rightarrow> put_match_s slot c' rest ((c, slot) # stack_vec) s')
      | None \<Rightarrow> ((c, c' # rest, stack_vec), s))"

fun put_fresh_s ::
  "char \<Rightarrow> string \<Rightarrow> (char \<times> addr) list \<Rightarrow> 'm store
     \<Rightarrow> (char \<times> string \<times> (char \<times> addr) list) \<times> 'm store" where
  "put_fresh_s c [] stack_vec s = ((c, [], stack_vec), s)"
| "put_fresh_s c (c' # rest) stack_vec s =
     (case alloc (TrieNodeObj []) s of
        (slot, s') \<Rightarrow> put_fresh_s c' rest ((c, slot) # stack_vec) s')"

fun put_build_s ::
  "int \<Rightarrow> int \<Rightarrow> char \<Rightarrow> addr \<Rightarrow> (char \<times> addr) list \<Rightarrow> 'm store
     \<Rightarrow> (char \<times> addr) \<times> 'm store" where
  "put_build_s n it_key key_char slot [] s = ((key_char, slot), s)"
| "put_build_s n it_key key_char slot ((c, top_node) # stack_vec) s =
     (case map_of (children_at s top_node) key_char of
        Some old \<Rightarrow>
          if it_key + 1 = n
          then (let s1 = write_children slot (children_at s old) s;
                    s2 = write_children top_node
                           (AList.update key_char slot (children_at s1 top_node)) s1
                in put_build_s n (it_key - 1) c top_node stack_vec s2)
          else put_build_s n it_key c top_node stack_vec
                 (write_children top_node
                    (AList.update key_char slot (children_at s top_node)) s)
      | None \<Rightarrow>
          put_build_s n 0 c top_node stack_vec
            (write_children top_node
               (AList.update key_char slot (children_at s top_node)) s))"

definition Put_s ::
  "'m store \<Rightarrow> addr option \<Rightarrow> string \<Rightarrow> 'm val \<Rightarrow> addr option \<times> 'm store" where
  "Put_s s root_ptr key v =
     (case alloc (TrieNodeObj []) s of
        (fresh_root, s0) \<Rightarrow>
     (case (case root_ptr of None \<Rightarrow> (fresh_root, s0) | Some r \<Rightarrow> Clone_s r s0) of
        (new_root, s1) \<Rightarrow>
     (case key of
        [] \<Rightarrow>
          (case alloc (TrieNodeWithValueObj (children_at s1 new_root) v) s1 of
             (tmp, s2) \<Rightarrow> (Some tmp, s2))
      | c # rest \<Rightarrow>
          (case put_match_s new_root c rest [] s1 of
             ((c1, rest1, stack1), s2) \<Rightarrow>
          (case put_fresh_s c1 rest1 stack1 s2 of
             ((c2, rest2, stack2), s3) \<Rightarrow>
          (case alloc (TrieNodeWithValueObj [] v) s3 of
             (slot, s4) \<Rightarrow>
          (case put_build_s (int (length key)) (int (length key) - 1 - int (length rest2))
                  c2 slot stack2 s4 of
             ((key_char, slot'), s5) \<Rightarrow>
               (Some new_root,
                write_children new_root
                  (AList.update key_char slot' (children_at s5 new_root)) s5))))))))"

text \<open>
  \<^verbatim>\<open>Trie::Remove\<close> on a store. The writes are the \<^verbatim>\<open>erase\<close> of lines 148 and 153, the
  assignments of lines 161 and 169, all through \<^verbatim>\<open>stack_vec.top().second\<close>. The early
  return of line 133 clones the root a second time. Line 143 allocates the plain root
  that line 174 then drops.
\<close>

fun rm_walk_s ::
  "string \<Rightarrow> (char \<times> addr) list \<Rightarrow> 'm store
     \<Rightarrow> error + ((char \<times> addr) list option \<times> 'm store)" where
  "rm_walk_s [] stack_vec s = Inr (Some stack_vec, s)"
| "rm_walk_s (c # rest) [] s = Inl EmptyStack"
| "rm_walk_s (c # rest) ((tc, top_node) # stack_vec) s =
     (case map_of (children_at s top_node) c of
        Some child \<Rightarrow>
          (case Clone_s child s of
             (slot, s') \<Rightarrow> rm_walk_s rest ((c, slot) # (tc, top_node) # stack_vec) s')
      | None \<Rightarrow> Inr (None, s))"

function rm_prune_s ::
  "(char \<times> addr) list \<Rightarrow> 'm store \<Rightarrow> (char \<times> addr) list \<times> 'm store" where
  "rm_prune_s ((char_key, top_node) # (pc, parent) # stack_vec) s =
     (if children_at s top_node = [] \<and> \<not> obj_is_value_node (objs s top_node)
      then rm_prune_s ((pc, parent) # stack_vec)
             (write_children parent (AList.delete char_key (children_at s parent)) s)
      else ((char_key, top_node) # (pc, parent) # stack_vec, s))"
| "rm_prune_s [x] s = ([x], s)"
| "rm_prune_s [] s = ([], s)"
  by pat_completeness auto
termination
  by (relation "measure (\<lambda>(st, s). length st)") auto

definition rm_delete_s ::
  "(char \<times> addr) list \<Rightarrow> 'm store \<Rightarrow> error + ((char \<times> addr) list \<times> 'm store)" where
  "rm_delete_s stack_vec s =
     (case stack_vec of
        [] \<Rightarrow> Inl EmptyStack
      | (char_key, top_node) # below \<Rightarrow>
          if obj_is_value_node (objs s top_node) then
            (if children_at s top_node = [] then
               (case below of
                  [] \<Rightarrow> Inl EmptyStack
                | (pc, parent) # stack_vec' \<Rightarrow>
                    Inr (rm_prune_s ((pc, parent) # stack_vec')
                           (write_children parent
                              (AList.delete char_key (children_at s parent)) s)))
             else
               (case below of
                  [] \<Rightarrow> Inl EmptyStack
                | (pc, parent) # stack_vec' \<Rightarrow>
                    (case map_of (children_at s parent) char_key of
                       None \<Rightarrow> Inl OutOfRange
                     | Some _ \<Rightarrow>
                         (case alloc (TrieNodeObj (children_at s top_node)) s of
                            (plain, s') \<Rightarrow>
                              Inr ((pc, parent) # stack_vec',
                                   write_children parent
                                     (AList.update char_key plain (children_at s' parent))
                                     s')))))
          else Inr (stack_vec, s))"

fun rm_build_s ::
  "char \<Rightarrow> addr \<Rightarrow> (char \<times> addr) list \<Rightarrow> 'm store \<Rightarrow> error + (addr \<times> 'm store)" where
  "rm_build_s key_char slot [] s = Inr (slot, s)"
| "rm_build_s key_char slot ((c, top_node) # stack_vec) s =
     (case map_of (children_at s top_node) key_char of
        None \<Rightarrow> Inl OutOfRange
      | Some _ \<Rightarrow>
          rm_build_s c top_node stack_vec
            (write_children top_node
               (AList.update key_char slot (children_at s top_node)) s))"

definition rm_finish_s ::
  "(char \<times> addr) list \<Rightarrow> 'm store \<Rightarrow> error + (addr option \<times> 'm store)" where
  "rm_finish_s stack_vec s =
     (case stack_vec of
        [] \<Rightarrow> Inl EmptyStack
      | (key_char, slot) # below \<Rightarrow>
          (case rm_build_s key_char slot below s of
             Inl e \<Rightarrow> Inl e
           | Inr (new_root, s') \<Rightarrow>
               if \<not> obj_is_value_node (objs s' new_root) \<and> children_at s' new_root = []
               then Inr (None, s')
               else Inr (Some new_root, s')))"

definition Remove_s ::
  "'m store \<Rightarrow> addr option \<Rightarrow> string \<Rightarrow> error + (addr option \<times> 'm store)" where
  "Remove_s s root_ptr key =
     (case root_ptr of
        None \<Rightarrow> Inr (None, s)
      | Some r \<Rightarrow>
          (case Clone_s r s of
             (new_root, s0) \<Rightarrow>
          (case rm_walk_s key [(CHR ''a'', new_root)] s0 of
             Inl e \<Rightarrow> Inl e
           | Inr (None, s1) \<Rightarrow>
               (case Clone_s r s1 of (new_root', s2) \<Rightarrow> Inr (Some new_root', s2))
           | Inr (Some stack_vec, s1) \<Rightarrow>
               if key = [] then
                 (if children_at s1 r = [] then Inr (None, s1)
                  else (case alloc (TrieNodeObj (children_at s1 r)) s1 of
                          (plain, s2) \<Rightarrow> rm_finish_s stack_vec s2))
               else
                 (case rm_delete_s stack_vec s1 of
                    Inl e \<Rightarrow> Inl e
                  | Inr (stack_vec', s2) \<Rightarrow> rm_finish_s stack_vec' s2))))"

text \<open>
  A store is well formed for a root pointer when it is closed, that is no allocated object
  points to an address that is not allocated, and the root pointer, if not null, is
  allocated. \<open>frame n s s'\<close> says that \<open>s'\<close> has every object of \<open>s\<close> below address
  \<open>n\<close> unchanged and has not freed anything.
\<close>

definition closed :: "'m store \<Rightarrow> bool" where
  "closed s \<longleftrightarrow> (\<forall>a < next_addr s. \<forall>x \<in> set (children_at s a). snd x < next_addr s)"

definition wf_store :: "'m store \<Rightarrow> addr option \<Rightarrow> bool" where
  "wf_store s root_ptr \<longleftrightarrow>
     closed s \<and> (case root_ptr of None \<Rightarrow> True | Some r \<Rightarrow> r < next_addr s)"

definition frame :: "nat \<Rightarrow> 'm store \<Rightarrow> 'm store \<Rightarrow> bool" where
  "frame n s s' \<longleftrightarrow> next_addr s \<le> next_addr s' \<and> (\<forall>a<n. objs s' a = objs s a)"

text \<open>
  Invariants of the stack in the proofs: its addresses are not below \<open>n\<close>
  (\<open>fresh_stack\<close>), are allocated (\<open>bounded\<close>), and each entry is bound, under its
  symbol, in the children map of the entry below it, with addresses that decrease from the
  top (\<open>linked\<close>).
\<close>

definition fresh_stack :: "nat \<Rightarrow> (char \<times> addr) list \<Rightarrow> bool" where
  "fresh_stack n stack_vec \<longleftrightarrow> (\<forall>x \<in> set stack_vec. n \<le> snd x)"

definition bounded :: "'m store \<Rightarrow> (char \<times> addr) list \<Rightarrow> bool" where
  "bounded s st \<longleftrightarrow> (\<forall>x \<in> set st. snd x < next_addr s)"

fun linked :: "'m store \<Rightarrow> (char \<times> addr) list \<Rightarrow> bool" where
  "linked s ((c, a) # (pc, p) # st) =
     (map_of (children_at s p) c \<noteq> None \<and> p < a \<and> linked s ((pc, p) # st))"
| "linked s [x] = True"
| "linked s [] = True"

text \<open>A store for the examples: the trie with 1 at \<^verbatim>\<open>"a"\<close>, rooted at address 0.\<close>

definition example_store :: "unit store" where
  "example_store =
     \<lparr>objs = (\<lambda>_. TrieNodeObj [])
               (0 := TrieNodeObj [(CHR ''a'', 1)], 1 := TrieNodeWithValueObj [] (U32 1)),
      next_addr = 2\<rparr>"

section \<open>Sequences of operations\<close>

text \<open>
  A trie reachable from the empty trie is the result of a list of \<open>Put\<close> and
  \<open>Remove\<close> calls, each applied to the trie the previous call returned.
\<close>

datatype 'm op = OpPut string "'m val" | OpRemove string

fun apply_ops :: "'m trie \<Rightarrow> 'm op list \<Rightarrow> error + 'm trie" where
  "apply_ops t [] = Inr t"
| "apply_ops t (OpPut key v # ops) = apply_ops (Put t key v) ops"
| "apply_ops t (OpRemove key # ops) =
     (case Remove t key of Inl e \<Rightarrow> Inl e | Inr t' \<Rightarrow> apply_ops t' ops)"

section \<open>Predicates of the specification\<close>

text \<open>
  A dead node is a plain node without children. \<open>no_dead n\<close> says that no node of
  the subtree of \<open>n\<close>, \<open>n\<close> included, is dead.
\<close>

fun no_dead :: "'m node \<Rightarrow> bool" where
  "no_dead (TrieNode cs) = (cs \<noteq> [] \<and> (\<forall>x \<in> set cs. no_dead (snd x)))"
| "no_dead (TrieNodeWithValue cs v) = (\<forall>x \<in> set cs. no_dead (snd x))"

definition no_dead_children :: "'m node \<Rightarrow> bool" where
  "no_dead_children n = (\<forall>x \<in> set (children n). no_dead (snd x))"

definition no_dead_trie :: "'m trie \<Rightarrow> bool" where
  "no_dead_trie t = (case root t of None \<Rightarrow> True | Some r \<Rightarrow> no_dead r)"

text \<open>
  A key holds a value when the walk along it is not interrupted and ends on a value node.
\<close>

definition node_holds :: "'m node \<Rightarrow> string \<Rightarrow> bool" where
  "node_holds r key = (case get_walk r key of None \<Rightarrow> False | Some node \<Rightarrow> is_value_node node)"

definition holds_value :: "'m trie \<Rightarrow> string \<Rightarrow> bool" where
  "holds_value t key = (case root t of None \<Rightarrow> False | Some r \<Rightarrow> node_holds r key)"

text \<open>The part of \<open>Get\<close> below a root that is not null.\<close>

definition lookup_node :: "ty \<Rightarrow> 'm node \<Rightarrow> string \<Rightarrow> 'm val option" where
  "lookup_node T r key =
     (case get_walk r key of
        None \<Rightarrow> None
      | Some node \<Rightarrow> if is_value_node node then dynamic_cast T node else None)"

section \<open>Recursive descriptions of the loops\<close>

text \<open>
  The proofs compare the stack programs above with functions that recurse along the key.
  \<open>set_child\<close> and \<open>del_child\<close> bind and erase one symbol in a node;
  \<open>child_or_fresh\<close> is the child for a symbol, or a fresh plain node.
\<close>

definition child_or_fresh :: "'m node \<Rightarrow> char \<Rightarrow> 'm node" where
  "child_or_fresh n c = (case map_of (children n) c of Some ch \<Rightarrow> ch | None \<Rightarrow> TrieNode [])"

definition set_child :: "'m node \<Rightarrow> char \<Rightarrow> 'm node \<Rightarrow> 'm node" where
  "set_child n c ch = set_children n (AList.update c ch (children n))"

definition del_child :: "'m node \<Rightarrow> char \<Rightarrow> 'm node" where
  "del_child n c = set_children n (AList.delete c (children n))"

text \<open>
  \<open>put_chain\<close> lists, from the root downwards, what the first two loops of \<open>Put\<close> push.
  \<open>put_plug\<close> is the third loop once \<^verbatim>\<open>it_key + 1 == key.end()\<close> can no longer hold.
  \<open>put_node p c rest v\<close> is the node that replaces \<open>p\<close> when the key \<open>c # rest\<close> is
  put below \<open>p\<close> and \<open>p\<close> is on the stack, so that the value node takes over the
  children of the node it replaces.
\<close>

fun put_chain :: "'m node \<Rightarrow> char \<Rightarrow> string \<Rightarrow> (char \<times> 'm node) list" where
  "put_chain p c [] = []"
| "put_chain p c (c' # rest) =
     (c, child_or_fresh p c) # put_chain (child_or_fresh p c) c' rest"

fun put_plug :: "char \<Rightarrow> 'm node \<Rightarrow> (char \<times> 'm node) list \<Rightarrow> char \<times> 'm node" where
  "put_plug key_char slot [] = (key_char, slot)"
| "put_plug key_char slot ((c, top_node) # stack_vec) =
     put_plug c (set_child top_node key_char slot) stack_vec"

fun put_node :: "'m node \<Rightarrow> char \<Rightarrow> string \<Rightarrow> 'm val \<Rightarrow> 'm node" where
  "put_node n c [] v = set_child n c (TrieNodeWithValue (children (child_or_fresh n c)) v)"
| "put_node n c (c' # rest) v = set_child n c (put_node (child_or_fresh n c) c' rest v)"

text \<open>
  What \<open>Remove\<close> does to the subtree of a node \<open>n\<close> for the rest \<open>ks\<close> of the key:
  the walk is interrupted, the node is pruned, or it is replaced.
\<close>

datatype 'm removed = Interrupted | Pruned | Replaced "'m node"

fun remove_node :: "'m node \<Rightarrow> string \<Rightarrow> 'm removed" where
  "remove_node n [] =
     (if is_value_node n
      then (if children n = [] then Pruned else Replaced (TrieNode (children n)))
      else Replaced n)"
| "remove_node n (c # ks) =
     (case map_of (children n) c of
        None \<Rightarrow> Interrupted
      | Some ch \<Rightarrow>
          (case remove_node ch ks of
             Interrupted \<Rightarrow> Interrupted
           | Pruned \<Rightarrow>
               if children (del_child n c) = [] \<and> \<not> is_value_node (del_child n c)
               then Pruned else Replaced (del_child n c)
           | Replaced ch' \<Rightarrow> Replaced (set_child n c ch')))"

definition trie_of_removed :: "'m node \<Rightarrow> 'm removed \<Rightarrow> 'm trie" where
  "trie_of_removed r res =
     (case res of
        Interrupted \<Rightarrow> Trie (Some r)
      | Pruned \<Rightarrow> Trie None
      | Replaced r' \<Rightarrow> Trie (Some r'))"

definition rm_post :: "(char \<times> 'm node) list \<Rightarrow> error + 'm trie" where
  "rm_post s = (case rm_delete s of Inl e \<Rightarrow> Inl e | Inr s' \<Rightarrow> rm_finish s')"

section \<open>A store that holds a trie\<close>

text \<open>
  \<open>rep P s a n\<close>: the object at address \<open>a\<close> of the store \<open>s\<close>, with the objects
  its children maps lead to, is the node \<open>n\<close>, and every address met on the way
  satisfies \<open>P\<close>. \<open>rep1\<close> asks \<open>P\<close> of the descendants only. \<open>trie_rep s p t\<close>: the
  root pointer \<open>p\<close> into \<open>s\<close> is the trie \<open>t\<close>, and only allocated objects are met.
\<close>

fun same_kind :: "'m obj \<Rightarrow> 'm node \<Rightarrow> bool" where
  "same_kind ob (TrieNode _) = (\<not> obj_is_value_node ob)"
| "same_kind ob (TrieNodeWithValue _ v) = (obj_is_value_node ob \<and> obj_value ob = v)"

fun rep :: "(addr \<Rightarrow> bool) \<Rightarrow> 'm store \<Rightarrow> addr \<Rightarrow> 'm node \<Rightarrow> bool" where
  "rep P s a (TrieNode ns) =
     (P a \<and> \<not> obj_is_value_node (objs s a) \<and>
      list_all2 (\<lambda>x y. fst x = fst y \<and> rep P s (snd x) (snd y)) (children_at s a) ns)"
| "rep P s a (TrieNodeWithValue ns v) =
     (P a \<and> obj_is_value_node (objs s a) \<and> obj_value (objs s a) = v \<and>
      list_all2 (\<lambda>x y. fst x = fst y \<and> rep P s (snd x) (snd y)) (children_at s a) ns)"

definition kids_rel ::
  "(addr \<Rightarrow> 'm node \<Rightarrow> bool) \<Rightarrow> (char \<times> addr) list \<Rightarrow> (char \<times> 'm node) list \<Rightarrow> bool" where
  "kids_rel R cs ns = list_all2 (\<lambda>x y. fst x = fst y \<and> R (snd x) (snd y)) cs ns"

definition rep1 :: "(addr \<Rightarrow> bool) \<Rightarrow> 'm store \<Rightarrow> addr \<Rightarrow> 'm node \<Rightarrow> bool" where
  "rep1 P s a n \<longleftrightarrow> same_kind (objs s a) n \<and> kids_rel (rep P s) (children_at s a) (children n)"

definition trie_rep :: "'m store \<Rightarrow> addr option \<Rightarrow> 'm trie \<Rightarrow> bool" where
  "trie_rep s root_ptr t =
     (case root_ptr of
        None \<Rightarrow> root t = None
      | Some r \<Rightarrow>
          (case root t of
             None \<Rightarrow> False
           | Some n \<Rightarrow> rep (\<lambda>b. b < next_addr s) s r n))"

text \<open>
  Invariants of the simulation proofs. \<open>upper n0 a s\<close> holds of the addresses below \<open>n0\<close>
  and of the allocated addresses above \<open>a\<close>. In \<open>stack_rel n0 s ss st\<close> the stack
  \<open>ss\<close> of addresses and the stack \<open>st\<close> of nodes have the same symbols, each address
  is not below \<open>n0\<close>, is the node beside it, has all its descendants below \<open>n0\<close>, and
  the addresses decrease from the top. \<open>top_rel\<close> is the same, but the descendants of
  the top entry may also lie above it.
\<close>

definition upper :: "nat \<Rightarrow> addr \<Rightarrow> 'm store \<Rightarrow> addr \<Rightarrow> bool" where
  "upper n0 a s b \<longleftrightarrow> b < n0 \<or> (a < b \<and> b < next_addr s)"

definition stack_rel ::
  "nat \<Rightarrow> 'm store \<Rightarrow> (char \<times> addr) list \<Rightarrow> (char \<times> 'm node) list \<Rightarrow> bool" where
  "stack_rel n0 s ss st \<longleftrightarrow>
     list_all2 (\<lambda>x y. fst x = fst y \<and> rep1 (\<lambda>b. b < n0) s (snd x) (snd y) \<and>
                      n0 \<le> snd x \<and> snd x < next_addr s) ss st \<and>
     sorted_wrt (\<lambda>x y. snd y < snd x) ss"

fun top_rel ::
  "nat \<Rightarrow> 'm store \<Rightarrow> (char \<times> addr) list \<Rightarrow> (char \<times> 'm node) list \<Rightarrow> bool" where
  "top_rel n0 s ((c, a) # ss) ((c', n) # st) =
     (c = c' \<and> rep1 (upper n0 a s) s a n \<and> n0 \<le> a \<and> a < next_addr s \<and>
      (\<forall>x \<in> set ss. snd x < a) \<and> stack_rel n0 s ss st)"
| "top_rel n0 s ss st = False"

section \<open>Lemmas\<close>

lemma Clone_same [simp]: "Clone n = n"
  by (cases n) simp_all

lemma children_set_children [simp]: "children (set_children n cs) = cs"
  by (cases n) simp_all

lemma is_value_node_set_children [simp]: "is_value_node (set_children n cs) = is_value_node n"
  by (cases n) simp_all

lemma put_fresh_chain:
  "children p = [] \<Longrightarrow> put_fresh c rest st = (last (c # rest), [], rev (put_chain p c rest) @ st)"
proof (induction rest arbitrary: p c st)
  case Nil
  then show ?case by simp
next
  case (Cons c' rest)
  have "child_or_fresh p c = TrieNode []" using Cons.prems by (simp add: child_or_fresh_def)
  moreover have "children (TrieNode [] :: 'a node) = []" by simp
  ultimately show ?case using Cons.IH [of "TrieNode []" c' "(c, TrieNode []) # st"] by simp
qed

lemma put_match_fresh_chain:
  "(case put_match p c rest st of (c1, rest1, st1) \<Rightarrow> put_fresh c1 rest1 st1)
     = (last (c # rest), [], rev (put_chain p c rest) @ st)"
proof (induction rest arbitrary: p c st)
  case Nil
  then show ?case by simp
next
  case (Cons c' rest)
  show ?case
  proof (cases "map_of (children p) c")
    case None
    then have cf: "child_or_fresh p c = TrieNode []" by (simp add: child_or_fresh_def)
    have "put_fresh c' rest ((c, TrieNode []) # st)
          = (last (c' # rest), [], rev (put_chain (TrieNode []) c' rest) @ (c, TrieNode []) # st)"
      by (rule put_fresh_chain) simp
    with None cf show ?thesis by simp
  next
    case (Some ch)
    then have cf: "child_or_fresh p c = ch" by (simp add: child_or_fresh_def)
    show ?thesis using Some cf Cons.IH [of ch c' "(c, ch) # st"] by simp
  qed
qed

lemma put_build_plug:
  "it_key + 1 \<noteq> n \<Longrightarrow> n \<noteq> 1 \<Longrightarrow> put_build n it_key key_char slot st = put_plug key_char slot st"
proof (induction st arbitrary: it_key key_char slot)
  case Nil
  then show ?case by simp
next
  case (Cons a st)
  obtain c top_node where a: "a = (c, top_node)" by (cases a)
  show ?case using Cons.prems Cons.IH [of it_key] Cons.IH [of 0]
    by (simp add: a set_child_def split: option.split)
qed

lemma put_build_chain:
  "2 \<le> n \<Longrightarrow>
   put_build n (n - 1) (last (c' # rest)) (TrieNodeWithValue [] v) (rev (put_chain p c (c' # rest)) @ st)
     = put_plug c (put_node (child_or_fresh p c) c' rest v) st"
proof (induction rest arbitrary: p c c' st)
  case Nil
  have 1: "n - 2 + 1 \<noteq> n" by simp
  have 2: "(0::int) + 1 \<noteq> n" using Nil by simp
  have 3: "n \<noteq> 1" using Nil by simp
  show ?case
    by (simp add: put_build_plug [OF 1 3] put_build_plug [OF 2 3] set_child_def child_or_fresh_def
             split: option.split)
next
  case (Cons c'' rest)
  show ?case using Cons.IH [OF Cons.prems, of c'' "child_or_fresh p c" c' "(c, child_or_fresh p c) # st"]
    by simp
qed

lemma Put_Cons_Nil:
  "Put t [c] v =
     Trie (Some (set_child (case root t of None \<Rightarrow> TrieNode [] | Some r \<Rightarrow> r) c (TrieNodeWithValue [] v)))"
  by (simp add: Put.simps set_child_def split: option.split)

lemma Put_Cons_Cons:
  "Put t (c # c' # rest) v =
     Trie (Some (put_node (case root t of None \<Rightarrow> TrieNode [] | Some r \<Rightarrow> r) c (c' # rest) v))"
proof -
  define r0 where "r0 = (case root t of None \<Rightarrow> TrieNode [] | Some r \<Rightarrow> r)"
  define n where "n = int (length (c # c' # rest))"
  have n2: "2 \<le> n" by (simp add: n_def)
  have mf: "(case put_match r0 c (c' # rest) [] of (c1, rest1, st1) \<Rightarrow> put_fresh c1 rest1 st1)
     = (last (c # c' # rest), [], rev (put_chain r0 c (c' # rest)) @ [])"
    by (rule put_match_fresh_chain)
  have bc: "put_build n (n - 1) (last (c' # rest)) (TrieNodeWithValue [] v) (rev (put_chain r0 c (c' # rest)) @ [])
     = put_plug c (put_node (child_or_fresh r0 c) c' rest v) []"
    by (rule put_build_chain [OF n2])
  obtain c1 rest1 st1 where m: "put_match r0 c (c' # rest) [] = (c1, rest1, st1)"
    by (cases "put_match r0 c (c' # rest) []")
  have f: "put_fresh c1 rest1 st1 = (last (c' # rest), [], rev (put_chain r0 c (c' # rest)))"
    using mf m by simp
  have b: "put_build n (n - 1) (last (c' # rest)) (TrieNodeWithValue [] v) (rev (put_chain r0 c (c' # rest)))
     = (c, put_node (child_or_fresh r0 c) c' rest v)"
    using bc by simp
  have "Put t (c # c' # rest) v = Trie (Some (set_child r0 c (put_node (child_or_fresh r0 c) c' rest v)))"
  proof -
    have r0: "(case root t of None \<Rightarrow> TrieNode [] | Some r \<Rightarrow> Clone r) = r0"
      by (simp add: r0_def split: option.split)
    show ?thesis
      unfolding Put.simps Let_def r0
      using b by (simp add: m f n_def set_child_def
            del: put_match.simps put_fresh.simps put_build.simps put_chain.simps put_node.simps
            split: option.split)
  qed
  then show ?thesis by (simp add: r0_def)
qed

declare Put.simps [simp del]

lemma map_of_set_child [simp]:
  "map_of (children (set_child n c ch)) c' = (if c' = c then Some ch else map_of (children n) c')"
  by (simp add: set_child_def update_conv')

lemma is_value_node_set_child [simp]: "is_value_node (set_child n c ch) = is_value_node n"
  by (simp add: set_child_def)

lemma children_set_child_nonempty [simp]: "children (set_child n c ch) \<noteq> []"
  by (simp add: set_child_def update_nonempty)

lemma get_walk_put_node:
  "\<exists>cs. get_walk (put_node n c rest v) (c # rest) = Some (TrieNodeWithValue cs v)"
  by (induction rest arbitrary: n c) simp_all

lemma Get_Put_same_aux: "Get (type_of v) (Put t key v) key = Some v"
proof (cases key)
  case Nil
  then show ?thesis by (simp add: Put.simps Get_def)
next
  case (Cons c rest)
  show ?thesis
  proof (cases rest)
    case Nil
    then show ?thesis using Cons by (simp add: Put_Cons_Nil Get_def)
  next
    case (Cons c' rest')
    obtain cs where "get_walk (put_node (case root t of None \<Rightarrow> TrieNode [] | Some r \<Rightarrow> r) c (c' # rest') v) (c # c' # rest')
       = Some (TrieNodeWithValue cs v)"
      using get_walk_put_node by blast
    then show ?thesis using Cons \<open>key = c # rest\<close>
      by (simp add: Put_Cons_Cons Get_def del: put_node.simps get_walk.simps)
  qed
qed

lemma no_dead_iff:
  "no_dead n \<longleftrightarrow> (is_value_node n \<or> children n \<noteq> []) \<and> no_dead_children n"
  by (cases n) (auto simp: no_dead_children_def)

lemma set_update_subset: "set (AList.update k v al) \<subseteq> insert (k, v) (set al)"
  by (induction al) auto

lemma set_delete_subset: "set (AList.delete k al) \<subseteq> set al"
  by (induction al) auto

lemma no_dead_children_set_child:
  "no_dead_children n \<Longrightarrow> no_dead ch \<Longrightarrow> no_dead (set_child n c ch)"
  unfolding no_dead_iff [of "set_child n c ch"]
  using set_update_subset [of c ch "children n"]
  by (auto simp: no_dead_children_def set_child_def)

lemma no_dead_imp_children: "no_dead n \<Longrightarrow> no_dead_children n"
  by (cases n) (auto simp: no_dead_children_def)

lemma no_dead_children_child_or_fresh:
  "no_dead_children n \<Longrightarrow> no_dead_children (child_or_fresh n c)"
proof (cases "map_of (children n) c")
  case None
  then show ?thesis by (simp add: child_or_fresh_def no_dead_children_def)
next
  case (Some ch)
  assume "no_dead_children n"
  moreover have "(c, ch) \<in> set (children n)" using Some by (rule map_of_SomeD)
  ultimately have "no_dead ch" by (auto simp: no_dead_children_def)
  then show ?thesis using Some by (simp add: child_or_fresh_def no_dead_imp_children)
qed

lemma no_dead_put_node: "no_dead_children n \<Longrightarrow> no_dead (put_node n c rest v)"
proof (induction rest arbitrary: n c)
  case Nil
  have "no_dead (TrieNodeWithValue (children (child_or_fresh n c)) v)"
    using no_dead_children_child_or_fresh [OF Nil] by (simp add: no_dead_children_def)
  then show ?case using Nil by (simp add: no_dead_children_set_child)
next
  case (Cons c' rest)
  then show ?case by (simp add: no_dead_children_set_child no_dead_children_child_or_fresh)
qed

lemma no_dead_Put: "no_dead_trie t \<Longrightarrow> no_dead_trie (Put t key v)"
proof -
  assume t: "no_dead_trie t"
  define r0 where "r0 = (case root t of None \<Rightarrow> TrieNode [] | Some r \<Rightarrow> r)"
  have r0: "no_dead_children r0"
  proof (cases "root t")
    case None
    then show ?thesis by (simp add: r0_def no_dead_children_def)
  next
    case (Some r)
    then show ?thesis using t by (simp add: r0_def no_dead_trie_def no_dead_imp_children)
  qed
  show ?thesis
  proof (cases key)
    case Nil
    have "children (case root t of None \<Rightarrow> TrieNode [] | Some r \<Rightarrow> Clone r) = children r0"
      by (simp add: r0_def split: option.split)
    then show ?thesis using r0 Nil by (simp add: Put.simps no_dead_trie_def no_dead_children_def)
  next
    case (Cons c rest)
    show ?thesis
    proof (cases rest)
      case Nil
      then show ?thesis using Cons r0
        by (simp add: Put_Cons_Nil no_dead_trie_def no_dead_children_set_child r0_def [symmetric])
    next
      case (Cons c' rest')
      then show ?thesis using \<open>key = c # rest\<close> r0 no_dead_put_node [OF r0]
        by (simp add: Put_Cons_Cons no_dead_trie_def r0_def [symmetric] del: put_node.simps)
    qed
  qed
qed

lemma rm_finish_step:
  "map_of (children p) c \<noteq> None \<Longrightarrow>
   rm_finish ((c, n) # (pc, p) # st) = rm_finish ((pc, set_child p c n) # st)"
  by (auto simp: rm_finish_def set_child_def)

lemma rm_walk_remove_node:
  "map_of (children p) c \<noteq> None \<Longrightarrow>
   (case remove_node n ks of
      Interrupted \<Rightarrow> rm_walk ks ((c, n) # (pc, p) # st) = Inr None
    | Pruned \<Rightarrow>
        (\<exists>s. rm_walk ks ((c, n) # (pc, p) # st) = Inr (Some s) \<and>
             rm_post s = rm_finish (rm_prune ((pc, del_child p c) # st)))
    | Replaced n' \<Rightarrow>
        (\<exists>s. rm_walk ks ((c, n) # (pc, p) # st) = Inr (Some s) \<and>
             rm_post s = rm_finish ((pc, set_child p c n') # st)))"
proof (induction ks arbitrary: c n pc p st)
  case Nil
  then show ?case
    by (auto simp: rm_post_def rm_delete_def rm_finish_step del_child_def set_child_def)
next
  case (Cons k ks)
  show ?case
  proof (cases "map_of (children n) k")
    case None
    then show ?thesis by simp
  next
    case (Some ch)
    then have link: "map_of (children n) k \<noteq> None" by simp
    note IH = Cons.IH [OF link, of ch c "(pc, p) # st"]
    show ?thesis
    proof (cases "remove_node ch ks")
      case Interrupted
      then show ?thesis using IH Some by simp
    next
      case Pruned
      then obtain s where s: "rm_walk ks ((k, ch) # (c, n) # (pc, p) # st) = Inr (Some s)"
        and post: "rm_post s = rm_finish (rm_prune ((c, del_child n k) # (pc, p) # st))"
        using IH by auto
      show ?thesis
      proof (cases "children (del_child n k) = [] \<and> \<not> is_value_node (del_child n k)")
        case True
        then show ?thesis using Pruned Some s post by (simp add: del_child_def)
      next
        case False
        then have "rm_prune ((c, del_child n k) # (pc, p) # st) = (c, del_child n k) # (pc, p) # st"
          by auto
        then show ?thesis using Pruned Some s post False Cons.prems
          by (auto simp: rm_finish_step)
      qed
    next
      case (Replaced ch')
      then show ?thesis using IH Some Cons.prems by (auto simp: rm_finish_step)
    qed
  qed
qed

lemma Remove_Nil:
  "Remove (Trie (Some r)) [] = Inr (if children r = [] then Trie None else Trie (Some r))"
  by (simp add: Remove_def rm_finish_def)

lemma Remove_Cons:
  "Remove (Trie (Some r)) (k # ks) = Inr (trie_of_removed r (remove_node r (k # ks)))"
proof (cases "map_of (children r) k")
  case None
  then show ?thesis by (simp add: Remove_def trie_of_removed_def)
next
  case (Some ch)
  then have link: "map_of (children r) k \<noteq> None" by simp
  note L = rm_walk_remove_node [OF link, where n = ch and ks = ks and pc = "CHR ''a''" and st = "[]"]
  have R: "Remove (Trie (Some r)) (k # ks) =
     (case rm_walk ks [(k, ch), (CHR ''a'', r)] of
        Inl e \<Rightarrow> Inl e
      | Inr None \<Rightarrow> Inr (Trie (Some r))
      | Inr (Some s) \<Rightarrow> rm_post s)"
    using Some by (simp add: Remove_def rm_post_def split: sum.split option.split)
  show ?thesis
  proof (cases "remove_node ch ks")
    case Interrupted
    then show ?thesis using L Some R by (simp add: trie_of_removed_def)
  next
    case Pruned
    then show ?thesis using L Some R
      by (auto simp: trie_of_removed_def rm_finish_def)
  next
    case (Replaced ch')
    then show ?thesis using L Some R
      by (auto simp: trie_of_removed_def rm_finish_def)
  qed
qed

lemma Get_None_root: "Get T (Trie None) key = None"
  by (simp add: Get_def)

lemma Get_Some_root: "Get T (Trie (Some r)) key = lookup_node T r key"
  by (simp add: Get_def lookup_node_def)

lemma lookup_node_Nil: "lookup_node T n [] = (if is_value_node n then dynamic_cast T n else None)"
  by (simp add: lookup_node_def)

lemma lookup_node_Cons:
  "lookup_node T n (c # ks) =
     (case map_of (children n) c of None \<Rightarrow> None | Some ch \<Rightarrow> lookup_node T ch ks)"
  by (simp add: lookup_node_def split: option.split)

lemma map_of_del_child [simp]:
  "map_of (children (del_child n c)) c' = (if c' = c then None else map_of (children n) c')"
  by (simp add: del_child_def delete_conv')

lemma is_value_node_del_child [simp]: "is_value_node (del_child n c) = is_value_node n"
  by (simp add: del_child_def)

lemma dynamic_cast_set_children:
  "dynamic_cast T (set_children n cs) = dynamic_cast T n"
  by (cases n) simp_all

lemma lookup_node_no_children:
  "children n = [] \<Longrightarrow> \<not> is_value_node n \<Longrightarrow> lookup_node T n ks = None"
  by (cases ks) (simp_all add: lookup_node_Nil lookup_node_Cons)

lemma lookup_node_set_child_Nil [simp]: "lookup_node T (set_child n c ch) [] = lookup_node T n []"
  by (simp add: lookup_node_Nil set_child_def dynamic_cast_set_children)

lemma lookup_node_set_child_Cons [simp]:
  "lookup_node T (set_child n c ch) (c2 # r) =
     (if c2 = c then lookup_node T ch r else lookup_node T n (c2 # r))"
  by (simp add: lookup_node_Cons)

lemma lookup_node_del_child_Nil [simp]: "lookup_node T (del_child n c) [] = lookup_node T n []"
  by (simp add: lookup_node_Nil del_child_def dynamic_cast_set_children)

lemma lookup_node_del_child_Cons [simp]:
  "lookup_node T (del_child n c) (c2 # r) =
     (if c2 = c then None else lookup_node T n (c2 # r))"
  by (simp add: lookup_node_Cons)

lemma remove_node_Cons_Pruned:
  "remove_node n (k # ks) = Pruned \<longleftrightarrow>
     (\<exists>ch. map_of (children n) k = Some ch \<and> remove_node ch ks = Pruned \<and>
           children (del_child n k) = [] \<and> \<not> is_value_node n)"
  by (auto split: option.splits removed.splits if_splits)

lemma remove_node_Cons_Replaced:
  "remove_node n (k # ks) = Replaced n' \<longleftrightarrow>
     (\<exists>ch. map_of (children n) k = Some ch \<and>
        ((remove_node ch ks = Pruned \<and> n' = del_child n k \<and>
            \<not> (children (del_child n k) = [] \<and> \<not> is_value_node n)) \<or>
         (\<exists>ch'. remove_node ch ks = Replaced ch' \<and> n' = set_child n k ch')))"
  by (auto split: option.splits removed.splits if_splits)

lemma remove_node_Cons_Interrupted:
  "remove_node n (k # ks) = Interrupted \<longleftrightarrow>
     (case map_of (children n) k of None \<Rightarrow> True | Some ch \<Rightarrow> remove_node ch ks = Interrupted)"
  by (auto split: option.splits removed.splits if_splits)

lemma remove_node_Pruned_other:
  "remove_node n ks = Pruned \<Longrightarrow> ks2 \<noteq> ks \<Longrightarrow> lookup_node T n ks2 = None"
proof (induction ks arbitrary: n ks2)
  case Nil
  then obtain c2 r2 where ks2: "ks2 = c2 # r2" by (cases ks2) auto
  from Nil(1) have "children n = []" by (simp split: if_splits)
  then show ?case by (simp add: ks2 lookup_node_Cons)
next
  case (Cons k ks)
  from Cons.prems(1) obtain ch where ch: "map_of (children n) k = Some ch"
    and p: "remove_node ch ks = Pruned"
    and d: "children (del_child n k) = []" and nv: "\<not> is_value_node n"
    unfolding remove_node_Cons_Pruned by blast
  show ?case
  proof (cases ks2)
    case Nil
    then show ?thesis using nv by (simp add: lookup_node_Nil)
  next
    case (Cons c2 r2)
    show ?thesis
    proof (cases "c2 = k")
      case True
      then have "r2 \<noteq> ks" using Cons.prems(2) Cons by simp
      from Cons.IH [OF p this] show ?thesis using ch True Cons by (simp add: lookup_node_Cons)
    next
      case False
      have "map_of (children (del_child n k)) c2 = None" by (simp add: d)
      then have "map_of (children n) c2 = None" using False by simp
      then show ?thesis using Cons by (simp add: lookup_node_Cons)
    qed
  qed
qed

lemma remove_node_Replaced_other:
  "remove_node n ks = Replaced n' \<Longrightarrow> ks2 \<noteq> ks \<Longrightarrow> lookup_node T n' ks2 = lookup_node T n ks2"
proof (induction ks arbitrary: n n' ks2)
  case Nil
  then obtain c2 r2 where ks2: "ks2 = c2 # r2" by (cases ks2) auto
  from Nil(1) have "children n' = children n" by (auto split: if_splits)
  then show ?case by (simp add: ks2 lookup_node_Cons)
next
  case (Cons k ks)
  from Cons.prems(1) obtain ch where ch: "map_of (children n) k = Some ch"
    and alt: "(remove_node ch ks = Pruned \<and> n' = del_child n k) \<or>
              (\<exists>ch'. remove_node ch ks = Replaced ch' \<and> n' = set_child n k ch')"
    unfolding remove_node_Cons_Replaced by blast
  show ?case
  proof (cases ks2)
    case Nil
    then show ?thesis using alt by auto
  next
    case (Cons c2 r2)
    show ?thesis
    proof (cases "c2 = k")
      case True
      then have ne: "r2 \<noteq> ks" using Cons.prems(2) Cons by simp
      from alt show ?thesis
      proof
        assume a: "remove_node ch ks = Pruned \<and> n' = del_child n k"
        then have "lookup_node T ch r2 = None" using remove_node_Pruned_other ne by blast
        then show ?thesis using a ch True Cons by (simp add: lookup_node_Cons)
      next
        assume "\<exists>ch'. remove_node ch ks = Replaced ch' \<and> n' = set_child n k ch'"
        then obtain ch' where a: "remove_node ch ks = Replaced ch'" and n': "n' = set_child n k ch'"
          by blast
        from Cons.IH [OF a ne] show ?thesis using n' ch True Cons by (simp add: lookup_node_Cons)
      qed
    next
      case False
      then show ?thesis using alt Cons by auto
    qed
  qed
qed

lemma set_child_same: "map_of (children n) c = Some ch \<Longrightarrow> set_child n c ch = n"
  by (cases n) (simp_all add: set_child_def update_triv)

lemma remove_node_absent:
  "\<not> node_holds n ks \<Longrightarrow> remove_node n ks = Interrupted \<or> remove_node n ks = Replaced n"
proof (induction ks arbitrary: n)
  case Nil
  then show ?case by (simp add: node_holds_def)
next
  case (Cons k ks)
  show ?case
  proof (cases "map_of (children n) k")
    case None
    then show ?thesis by simp
  next
    case (Some ch)
    then have "\<not> node_holds ch ks" using Cons.prems by (simp add: node_holds_def)
    from Cons.IH [OF this] show ?thesis using Some by (auto simp: set_child_same)
  qed
qed

lemma no_dead_del_child:
  "no_dead_children n \<Longrightarrow> no_dead_children (del_child n c)"
  using set_delete_subset [of c "children n"]
  by (auto simp: no_dead_children_def del_child_def)

lemma no_dead_child: "no_dead_children n \<Longrightarrow> map_of (children n) c = Some ch \<Longrightarrow> no_dead ch"
  by (auto simp: no_dead_children_def dest!: map_of_SomeD)

lemma no_dead_remove_node:
  "no_dead n \<Longrightarrow> remove_node n ks = Replaced n' \<Longrightarrow> no_dead n'"
proof (induction ks arbitrary: n n')
  case Nil
  from Nil(1) have c: "no_dead_children n" by (rule no_dead_imp_children)
  show ?case
  proof (cases "is_value_node n")
    case True
    then have n': "n' = TrieNode (children n)" and ne: "children n \<noteq> []"
      using Nil(2) by (auto split: if_splits)
    show ?thesis using c ne by (simp add: n' no_dead_children_def)
  next
    case False
    then show ?thesis using Nil by simp
  qed
next
  case (Cons k ks)
  from Cons.prems(1) have c: "no_dead_children n" by (rule no_dead_imp_children)
  from Cons.prems(2) obtain ch where ch: "map_of (children n) k = Some ch"
    and alt: "(remove_node ch ks = Pruned \<and> n' = del_child n k \<and>
            \<not> (children (del_child n k) = [] \<and> \<not> is_value_node n)) \<or>
              (\<exists>ch'. remove_node ch ks = Replaced ch' \<and> n' = set_child n k ch')"
    unfolding remove_node_Cons_Replaced by blast
  have ndch: "no_dead ch" using c ch by (rule no_dead_child)
  from alt show ?case
  proof
    assume a: "remove_node ch ks = Pruned \<and> n' = del_child n k \<and>
            \<not> (children (del_child n k) = [] \<and> \<not> is_value_node n)"
    have "no_dead_children (del_child n k)" using c by (rule no_dead_del_child)
    then show ?thesis using a unfolding no_dead_iff [of n'] by auto
  next
    assume "\<exists>ch'. remove_node ch ks = Replaced ch' \<and> n' = set_child n k ch'"
    then obtain ch' where a: "remove_node ch ks = Replaced ch'" and n': "n' = set_child n k ch'"
      by blast
    from Cons.IH [OF ndch a] show ?thesis using c n' by (simp add: no_dead_children_set_child)
  qed
qed

lemma holds_value_iff_Get: "holds_value t key \<longleftrightarrow> (\<exists>T v. Get T t key = Some v)"
proof -
  have "is_value_node n \<longleftrightarrow> (\<exists>T v. dynamic_cast T n = Some v)" for n :: "'a node"
    by (cases n) auto
  then show ?thesis
    by (auto simp: holds_value_def node_holds_def Get_def split: option.splits)
qed

lemma Remove_None: "Remove (Trie None) k = Inr (Trie None)"
  by (simp add: Remove_def)

lemma Remove_total: "\<exists>t'. Remove t k = Inr t'"
proof (cases t)
  case (Trie r0)
  show ?thesis
  proof (cases r0)
    case None
    then show ?thesis using Trie by (simp add: Remove_None)
  next
    case (Some r)
    then show ?thesis using Trie by (cases k) (simp_all add: Remove_Nil Remove_Cons)
  qed
qed

lemma Get_Remove_other:
  "k2 \<noteq> k \<Longrightarrow> Remove t k = Inr t' \<Longrightarrow> Get T t' k2 = Get T t k2"
proof (cases t)
  case (Trie r0)
  assume ne: "k2 \<noteq> k" and R: "Remove t k = Inr t'"
  show ?thesis
  proof (cases r0)
    case None
    then show ?thesis using Trie R by (simp add: Remove_None)
  next
    case (Some r)
    show ?thesis
    proof (cases k)
      case Nil
      then obtain c2 r2 where k2: "k2 = c2 # r2" using ne by (cases k2) auto
      show ?thesis using Nil Trie Some R
        by (auto simp: Remove_Nil Get_Some_root Get_None_root k2 lookup_node_Cons split: if_splits)
    next
      case (Cons c ks)
      then have t': "t' = trie_of_removed r (remove_node r k)"
        using Trie Some R by (simp add: Remove_Cons)
      show ?thesis
      proof (cases "remove_node r k")
        case Interrupted
        then show ?thesis using t' Trie Some by (simp add: trie_of_removed_def)
      next
        case Pruned
        from remove_node_Pruned_other [OF this ne] show ?thesis
          using t' Trie Some Pruned by (simp add: trie_of_removed_def Get_Some_root Get_None_root)
      next
        case (Replaced r')
        from remove_node_Replaced_other [OF this ne] show ?thesis
          using t' Trie Some Replaced by (simp add: trie_of_removed_def Get_Some_root)
      qed
    qed
  qed
qed

lemma Get_Remove_absent:
  "\<not> holds_value t k \<Longrightarrow> Remove t k = Inr t' \<Longrightarrow> Get T t' k2 = Get T t k2"
proof (cases t)
  case (Trie r0)
  assume nh: "\<not> holds_value t k" and R: "Remove t k = Inr t'"
  show ?thesis
  proof (cases r0)
    case None
    then show ?thesis using Trie R by (simp add: Remove_None)
  next
    case (Some r)
    then have nh': "\<not> node_holds r k" using nh Trie by (simp add: holds_value_def)
    show ?thesis
    proof (cases k)
      case Nil
      then have "\<not> is_value_node r" using nh' by (simp add: node_holds_def)
      then show ?thesis using Nil Trie Some R
        by (auto simp: Remove_Nil Get_Some_root Get_None_root lookup_node_no_children
                 split: if_splits)
    next
      case (Cons c ks)
      then have t': "t' = trie_of_removed r (remove_node r k)"
        using Trie Some R by (simp add: Remove_Cons)
      from remove_node_absent [OF nh'] show ?thesis
        using t' Trie Some by (auto simp: trie_of_removed_def)
    qed
  qed
qed

lemma no_dead_Remove: "no_dead_trie t \<Longrightarrow> Remove t k = Inr t' \<Longrightarrow> no_dead_trie t'"
proof (cases t)
  case (Trie r0)
  assume nd: "no_dead_trie t" and R: "Remove t k = Inr t'"
  show ?thesis
  proof (cases r0)
    case None
    then show ?thesis using Trie R by (auto simp: Remove_None no_dead_trie_def)
  next
    case (Some r)
    then have ndr: "no_dead r" using nd Trie by (simp add: no_dead_trie_def)
    show ?thesis
    proof (cases k)
      case Nil
      then show ?thesis using Trie Some R ndr
        by (auto simp: Remove_Nil no_dead_trie_def split: if_splits)
    next
      case (Cons c ks)
      then have t': "t' = trie_of_removed r (remove_node r k)"
        using Trie Some R by (simp add: Remove_Cons)
      show ?thesis
      proof (cases "remove_node r k")
        case Interrupted
        then show ?thesis using t' ndr by (simp add: trie_of_removed_def no_dead_trie_def)
      next
        case Pruned
        then show ?thesis using t' by (simp add: trie_of_removed_def no_dead_trie_def)
      next
        case (Replaced r')
        from no_dead_remove_node [OF ndr this] show ?thesis
          using t' Replaced by (simp add: trie_of_removed_def no_dead_trie_def)
      qed
    qed
  qed
qed

lemma apply_ops_no_dead:
  "no_dead_trie t0 \<Longrightarrow> \<exists>t. apply_ops t0 ops = Inr t \<and> no_dead_trie t"
proof (induction ops arbitrary: t0)
  case Nil
  then show ?case by simp
next
  case (Cons a ops)
  show ?case
  proof (cases a)
    case (OpPut key v)
    from Cons.IH [OF no_dead_Put [OF Cons.prems]] show ?thesis using OpPut by simp
  next
    case (OpRemove key)
    obtain t' where R: "Remove t0 key = Inr t'" using Remove_total by blast
    from Cons.IH [OF no_dead_Remove [OF Cons.prems R]] show ?thesis using OpRemove R by simp
  qed
qed

section \<open>Lemmas about the store\<close>

lemma frame_refl [simp]: "frame n s s"
  by (simp add: frame_def)

lemma frame_trans: "frame n s s' \<Longrightarrow> frame n s' s'' \<Longrightarrow> frame n s s''"
  by (auto simp: frame_def)

lemma frame_alloc: "n \<le> next_addr s \<Longrightarrow> alloc ob s = (a, s') \<Longrightarrow> frame n s s' \<and> n \<le> a"
  by (auto simp: alloc_def frame_def)

lemma frame_Clone_s: "n \<le> next_addr s \<Longrightarrow> Clone_s b s = (a, s') \<Longrightarrow> frame n s s' \<and> n \<le> a"
  unfolding Clone_s_def by (rule frame_alloc)

lemma frame_write_children: "n \<le> a \<Longrightarrow> frame n s (write_children a cs s)"
  by (auto simp: write_children_def frame_def)

lemma frame_next: "frame n s s' \<Longrightarrow> n \<le> next_addr s \<Longrightarrow> n \<le> next_addr s'"
  by (auto simp: frame_def)

lemma fresh_stack_Cons [simp]: "fresh_stack n ((c, a) # st) \<longleftrightarrow> n \<le> a \<and> fresh_stack n st"
  by (auto simp: fresh_stack_def)

lemma fresh_stack_Nil [simp]: "fresh_stack n []"
  by (simp add: fresh_stack_def)

lemma put_match_s_frame:
  "n \<le> next_addr s \<Longrightarrow> fresh_stack n st \<Longrightarrow> put_match_s parent c rest st s = ((c1, rest1, st1), s')
   \<Longrightarrow> frame n s s' \<and> fresh_stack n st1"
proof (induction rest arbitrary: parent c st s)
  case Nil
  then show ?case by simp
next
  case (Cons c' rest)
  show ?case
  proof (cases "map_of (children_at s parent) c")
    case None
    then show ?thesis using Cons.prems by simp
  next
    case (Some child)
    obtain slot s0 where cl: "Clone_s child s = (slot, s0)" by (cases "Clone_s child s")
    from frame_Clone_s [OF Cons.prems(1) cl] have f: "frame n s s0" and sl: "n \<le> slot" by auto
    have m: "put_match_s slot c' rest ((c, slot) # st) s0 = ((c1, rest1, st1), s')"
      using Cons.prems(3) Some cl by simp
    have "frame n s0 s' \<and> fresh_stack n st1"
      by (rule Cons.IH [OF frame_next [OF f Cons.prems(1)] _ m]) (simp add: sl Cons.prems(2))
    then show ?thesis using f frame_trans by blast
  qed
qed

lemma put_fresh_s_frame:
  "n \<le> next_addr s \<Longrightarrow> fresh_stack n st \<Longrightarrow> put_fresh_s c rest st s = ((c1, rest1, st1), s')
   \<Longrightarrow> frame n s s' \<and> fresh_stack n st1"
proof (induction rest arbitrary: c st s)
  case Nil
  then show ?case by simp
next
  case (Cons c' rest)
  obtain slot s0 where al: "alloc (TrieNodeObj []) s = (slot, s0)"
    by (cases "alloc (TrieNodeObj [] :: 'a obj) s")
  from frame_alloc [OF Cons.prems(1) al] have f: "frame n s s0" and sl: "n \<le> slot" by auto
  have m: "put_fresh_s c' rest ((c, slot) # st) s0 = ((c1, rest1, st1), s')"
    using Cons.prems(3) al by simp
  have "frame n s0 s' \<and> fresh_stack n st1"
    by (rule Cons.IH [OF frame_next [OF f Cons.prems(1)] _ m]) (simp add: sl Cons.prems(2))
  then show ?case using f frame_trans by blast
qed

lemma put_build_s_frame:
  "n \<le> slot \<Longrightarrow> fresh_stack n st \<Longrightarrow> put_build_s len it_key key_char slot st s = ((kc, slot'), s')
   \<Longrightarrow> frame n s s' \<and> n \<le> slot'"
proof (induction st arbitrary: it_key key_char slot s)
  case Nil
  then show ?case by simp
next
  case (Cons x st)
  obtain c top_node where x: "x = (c, top_node)" by (cases x)
  have tp: "n \<le> top_node" and ab: "fresh_stack n st" using Cons.prems(2) x by simp_all
  show ?case
  proof (cases "map_of (children_at s top_node) key_char")
    case None
    let ?s1 = "write_children top_node (AList.update key_char slot (children_at s top_node)) s"
    have b: "put_build_s len 0 c top_node st ?s1 = ((kc, slot'), s')"
      using Cons.prems(3) x None by simp
    have w: "frame n s ?s1" using tp by (rule frame_write_children)
    from Cons.IH [OF tp ab b] w show ?thesis using frame_trans by blast
  next
    case (Some old)
    show ?thesis
    proof (cases "it_key + 1 = len")
      case True
      let ?s1 = "write_children slot (children_at s old) s"
      let ?s2 = "write_children top_node (AList.update key_char slot (children_at ?s1 top_node)) ?s1"
      have b: "put_build_s len (it_key - 1) c top_node st ?s2 = ((kc, slot'), s')"
        using Cons.prems(3) x Some True by (simp add: Let_def)
      have "frame n s ?s1" using Cons.prems(1) by (rule frame_write_children)
      moreover have "frame n ?s1 ?s2" using tp by (rule frame_write_children)
      ultimately have "frame n s ?s2" by (rule frame_trans)
      with Cons.IH [OF tp ab b] show ?thesis using frame_trans by blast
    next
      case False
      let ?s1 = "write_children top_node (AList.update key_char slot (children_at s top_node)) s"
      have b: "put_build_s len it_key c top_node st ?s1 = ((kc, slot'), s')"
        using Cons.prems(3) x Some False by simp
      have w: "frame n s ?s1" using tp by (rule frame_write_children)
      from Cons.IH [OF tp ab b] w show ?thesis using frame_trans by blast
    qed
  qed
qed

lemma Put_s_frame:
  "Put_s s root_ptr key v = (root', s') \<Longrightarrow> frame (next_addr s) s s'"
proof -
  assume P: "Put_s s root_ptr key v = (root', s')"
  let ?n = "next_addr s"
  obtain fresh_root s0 where a0: "alloc (TrieNodeObj []) s = (fresh_root, s0)"
    by (cases "alloc (TrieNodeObj [] :: 'a obj) s")
  from frame_alloc [OF le_refl a0] have f0: "frame ?n s s0" and fr: "?n \<le> fresh_root" by auto
  have n0: "?n \<le> next_addr s0" using f0 by (simp add: frame_def)
  obtain new_root s1 where a1:
    "(case root_ptr of None \<Rightarrow> (fresh_root, s0) | Some r \<Rightarrow> Clone_s r s0) = (new_root, s1)"
    by (cases "(case root_ptr of None \<Rightarrow> (fresh_root, s0) | Some r \<Rightarrow> Clone_s r s0)")
  have f1: "frame ?n s0 s1 \<and> ?n \<le> new_root"
  proof (cases root_ptr)
    case None
    then show ?thesis using a1 fr by simp
  next
    case (Some r)
    then have "Clone_s r s0 = (new_root, s1)" using a1 by simp
    from frame_Clone_s [OF n0 this] show ?thesis .
  qed
  then have f01: "frame ?n s s1" and nr: "?n \<le> new_root" using f0 frame_trans by blast+
  have n1: "?n \<le> next_addr s1" using f01 by (simp add: frame_def)
  show ?thesis
  proof (cases key)
    case Nil
    obtain tmp s2 where a2: "alloc (TrieNodeWithValueObj (children_at s1 new_root) v) s1 = (tmp, s2)"
      by (cases "alloc (TrieNodeWithValueObj (children_at s1 new_root) v) s1")
    have "s' = s2" using P a0 a1 a2 Nil by (simp add: Put_s_def)
    then show ?thesis using frame_alloc [OF n1 a2] f01 frame_trans by blast
  next
    case (Cons c rest)
    obtain c1 rest1 stack1 s2 where m: "put_match_s new_root c rest [] s1 = ((c1, rest1, stack1), s2)"
      by (metis prod_cases3 surj_pair)
    from put_match_s_frame [OF n1 _ m] have f2: "frame ?n s1 s2" and ab1: "fresh_stack ?n stack1" by auto
    have n2: "?n \<le> next_addr s2" using frame_next [OF f2 n1] .
    obtain c2 rest2 stack2 s3 where fr2: "put_fresh_s c1 rest1 stack1 s2 = ((c2, rest2, stack2), s3)"
      by (metis prod_cases3 surj_pair)
    from put_fresh_s_frame [OF n2 ab1 fr2] have f3: "frame ?n s2 s3" and ab2: "fresh_stack ?n stack2" by auto
    have n3: "?n \<le> next_addr s3" using frame_next [OF f3 n2] .
    obtain slot s4 where a4: "alloc (TrieNodeWithValueObj [] v) s3 = (slot, s4)"
      by (cases "alloc (TrieNodeWithValueObj [] v) s3")
    from frame_alloc [OF n3 a4] have f4: "frame ?n s3 s4" and sl: "?n \<le> slot" by auto
    obtain key_char slot' s5 where b: "put_build_s (int (length key)) (int (length key) - 1 - int (length rest2)) c2 slot stack2 s4 = ((key_char, slot'), s5)"
      by (metis surj_pair)
    from put_build_s_frame [OF sl ab2 b] have f5: "frame ?n s4 s5" by auto
    have "s' = write_children new_root (AList.update key_char slot' (children_at s5 new_root)) s5"
      using P a0 a1 Cons m fr2 a4 b by (simp add: Put_s_def)
    then have "frame ?n s5 s'" using frame_write_children [OF nr] by simp
    then show ?thesis using f01 f2 f3 f4 f5 frame_trans by blast
  qed
qed

lemma rm_walk_s_frame:
  "n \<le> next_addr s \<Longrightarrow> fresh_stack n st \<Longrightarrow> rm_walk_s ks st s = Inr (res, s')
   \<Longrightarrow> frame n s s' \<and> (\<forall>st'. res = Some st' \<longrightarrow> fresh_stack n st')"
proof (induction ks arbitrary: st s)
  case Nil
  then show ?case by auto
next
  case (Cons c ks)
  from Cons.prems(3) obtain tc top_node below where st: "st = (tc, top_node) # below"
    by (cases st) auto
  show ?case
  proof (cases "map_of (children_at s top_node) c")
    case None
    then show ?thesis using Cons.prems st by simp
  next
    case (Some child)
    obtain slot s0 where cl: "Clone_s child s = (slot, s0)" by (cases "Clone_s child s")
    from frame_Clone_s [OF Cons.prems(1) cl] have f: "frame n s s0" and sl: "n \<le> slot" by auto
    have w: "rm_walk_s ks ((c, slot) # st) s0 = Inr (res, s')"
      using Cons.prems(3) Some cl st by simp
    have "frame n s0 s' \<and> (\<forall>st'. res = Some st' \<longrightarrow> fresh_stack n st')"
      by (rule Cons.IH [OF frame_next [OF f Cons.prems(1)] _ w]) (simp add: sl Cons.prems(2))
    then show ?thesis using f frame_trans by blast
  qed
qed

lemma rm_prune_s_frame:
  "fresh_stack n st \<Longrightarrow> rm_prune_s st s = (st', s') \<Longrightarrow> frame n s s' \<and> fresh_stack n st'"
proof (induction st s rule: rm_prune_s.induct)
  case (1 char_key top_node pc parent stack_vec s)
  show ?case
  proof (cases "children_at s top_node = [] \<and> \<not> obj_is_value_node (objs s top_node)")
    case True
    let ?s1 = "write_children parent (AList.delete char_key (children_at s parent)) s"
    have p: "n \<le> parent" and fs: "fresh_stack n ((pc, parent) # stack_vec)"
      using "1.prems"(1) by simp_all
    have r: "rm_prune_s ((pc, parent) # stack_vec) ?s1 = (st', s')"
      using "1.prems"(2) True by simp
    have w: "frame n s ?s1" using p by (rule frame_write_children)
    from "1.IH" [OF True fs r] w show ?thesis using frame_trans by blast
  next
    case False
    then show ?thesis using "1.prems" by auto
  qed
next
  case (2 x s)
  then show ?case by auto
next
  case (3 s)
  then show ?case by auto
qed

lemma rm_delete_s_frame:
  "n \<le> next_addr s \<Longrightarrow> fresh_stack n st \<Longrightarrow> rm_delete_s st s = Inr (st', s')
   \<Longrightarrow> frame n s s' \<and> fresh_stack n st'"
proof -
  assume n: "n \<le> next_addr s" and fs: "fresh_stack n st" and d: "rm_delete_s st s = Inr (st', s')"
  from d obtain char_key top_node below where st: "st = (char_key, top_node) # below"
    by (cases st) (auto simp: rm_delete_s_def)
  show ?thesis
  proof (cases "obj_is_value_node (objs s top_node)")
    case False
    then show ?thesis using d st fs by (simp add: rm_delete_s_def)
  next
    case True
    from d True st obtain pc parent stack_vec' where below: "below = (pc, parent) # stack_vec'"
      by (cases below) (auto simp: rm_delete_s_def split: if_splits)
    have p: "n \<le> parent" and fs': "fresh_stack n ((pc, parent) # stack_vec')"
      using fs st below by simp_all
    show ?thesis
    proof (cases "children_at s top_node = []")
      case True
      let ?s1 = "write_children parent (AList.delete char_key (children_at s parent)) s"
      have r: "rm_prune_s ((pc, parent) # stack_vec') ?s1 = (st', s')"
        using d st below \<open>obj_is_value_node (objs s top_node)\<close> True by (simp add: rm_delete_s_def)
      have w: "frame n s ?s1" using p by (rule frame_write_children)
      from rm_prune_s_frame [OF fs' r] w show ?thesis using frame_trans by blast
    next
      case False
      obtain plain s0 where al: "alloc (TrieNodeObj (children_at s top_node)) s = (plain, s0)"
        by (cases "alloc (TrieNodeObj (children_at s top_node) :: 'a obj) s")
      from frame_alloc [OF n al] have f: "frame n s s0" by auto
      have "st' = (pc, parent) # stack_vec' \<and>
            s' = write_children parent (AList.update char_key plain (children_at s0 parent)) s0"
        using d st below \<open>obj_is_value_node (objs s top_node)\<close> False al
        by (auto simp: rm_delete_s_def split: option.splits)
      then show ?thesis using f frame_write_children [OF p] fs' frame_trans by metis
    qed
  qed
qed

lemma rm_build_s_frame:
  "fresh_stack n st \<Longrightarrow> rm_build_s key_char slot st s = Inr (r, s') \<Longrightarrow> frame n s s'"
proof (induction st arbitrary: key_char slot s)
  case Nil
  then show ?case by simp
next
  case (Cons x st)
  obtain c top_node where x: "x = (c, top_node)" by (cases x)
  have tp: "n \<le> top_node" and fs: "fresh_stack n st" using Cons.prems(1) x by simp_all
  let ?s1 = "write_children top_node (AList.update key_char slot (children_at s top_node)) s"
  have b: "rm_build_s c top_node st ?s1 = Inr (r, s')"
    using Cons.prems(2) x by (simp split: option.splits)
  have w: "frame n s ?s1" using tp by (rule frame_write_children)
  from Cons.IH [OF fs b] w show ?case using frame_trans by blast
qed

lemma rm_finish_s_frame:
  "fresh_stack n st \<Longrightarrow> rm_finish_s st s = Inr (r, s') \<Longrightarrow> frame n s s'"
proof -
  assume fs: "fresh_stack n st" and f: "rm_finish_s st s = Inr (r, s')"
  from f obtain key_char slot below where st: "st = (key_char, slot) # below"
    by (cases st) (auto simp: rm_finish_s_def)
  from f st obtain new_root where b: "rm_build_s key_char slot below s = Inr (new_root, s')"
    by (auto simp: rm_finish_s_def split: sum.splits if_splits)
  have "fresh_stack n below" using fs st by simp
  then show ?thesis using b by (rule rm_build_s_frame)
qed

lemma Remove_s_frame:
  "Remove_s s root_ptr key = Inr (root', s') \<Longrightarrow> frame (next_addr s) s s'"
proof (cases root_ptr)
  case None
  assume "Remove_s s root_ptr key = Inr (root', s')"
  then show ?thesis using None by (simp add: Remove_s_def)
next
  case (Some r)
  assume R: "Remove_s s root_ptr key = Inr (root', s')"
  let ?n = "next_addr s"
  obtain new_root s0 where cl: "Clone_s r s = (new_root, s0)" by (cases "Clone_s r s")
  from frame_Clone_s [OF le_refl cl] have f0: "frame ?n s s0" and nr: "?n \<le> new_root" by auto
  have n0: "?n \<le> next_addr s0" using f0 by (simp add: frame_def)
  from R Some cl obtain res s1 where w: "rm_walk_s key [(CHR ''a'', new_root)] s0 = Inr (res, s1)"
    by (auto simp: Remove_s_def split: sum.splits)
  have "fresh_stack ?n [(CHR ''a'', new_root)]" using nr by simp
  from rm_walk_s_frame [OF n0 this w]
  have f1: "frame ?n s0 s1" and fs1: "\<forall>st'. res = Some st' \<longrightarrow> fresh_stack ?n st'" by auto
  have n1: "?n \<le> next_addr s1" using frame_next [OF f1 n0] .
  show ?thesis
  proof (cases res)
    case None
    obtain nr2 s2 where cl2: "Clone_s r s1 = (nr2, s2)" by (cases "Clone_s r s1")
    have "s' = s2" using R Some cl w None cl2 by (simp add: Remove_s_def)
    then show ?thesis using frame_Clone_s [OF n1 cl2] f0 f1 frame_trans by blast
  next
    case (Some stack_vec)
    then have fs: "fresh_stack ?n stack_vec" using fs1 by simp
    show ?thesis
    proof (cases "key = []")
      case True
      show ?thesis
      proof (cases "children_at s1 r = []")
        case True
        then have "s' = s1" using R \<open>root_ptr = Some r\<close> cl w Some \<open>key = []\<close>
          by (simp add: Remove_s_def)
        then show ?thesis using f0 f1 frame_trans by blast
      next
        case False
        obtain plain s2 where al: "alloc (TrieNodeObj (children_at s1 r)) s1 = (plain, s2)"
          by (cases "alloc (TrieNodeObj (children_at s1 r) :: 'a obj) s1")
        have "rm_finish_s stack_vec s2 = Inr (root', s')"
          using R \<open>root_ptr = Some r\<close> cl w Some \<open>key = []\<close> False al by (simp add: Remove_s_def)
        from rm_finish_s_frame [OF fs this] frame_alloc [OF n1 al] show ?thesis
          using f0 f1 frame_trans by blast
      qed
    next
      case False
      from R \<open>root_ptr = Some r\<close> cl w Some False obtain stack_vec' s2
        where d: "rm_delete_s stack_vec s1 = Inr (stack_vec', s2)"
          and fin: "rm_finish_s stack_vec' s2 = Inr (root', s')"
        by (auto simp: Remove_s_def split: sum.splits)
      from rm_delete_s_frame [OF n1 fs d] have f2: "frame ?n s1 s2" and fs2: "fresh_stack ?n stack_vec'"
        by auto
      from rm_finish_s_frame [OF fs2 fin] show ?thesis using f0 f1 f2 frame_trans by blast
    qed
  qed
qed

lemma get_walk_s_frame:
  "closed s \<Longrightarrow> \<forall>a < next_addr s. objs s' a = objs s a \<Longrightarrow> r < next_addr s \<Longrightarrow>
   get_walk_s s' r ks = get_walk_s s r ks \<and>
   (\<forall>a. get_walk_s s r ks = Some a \<longrightarrow> a < next_addr s)"
proof (induction ks arbitrary: r)
  case Nil
  then show ?case by simp
next
  case (Cons c ks)
  have eq: "children_at s' r = children_at s r" using Cons.prems by (simp add: children_at_def)
  show ?case
  proof (cases "map_of (children_at s r) c")
    case None
    then show ?thesis using eq by simp
  next
    case (Some a)
    then have "(c, a) \<in> set (children_at s r)" by (rule map_of_SomeD)
    then have "a < next_addr s" using Cons.prems(1,3) by (fastforce simp: closed_def)
    from Cons.IH [OF Cons.prems(1,2) this] show ?thesis using Some eq by simp
  qed
qed

lemma Get_s_frame:
  "wf_store s root_ptr \<Longrightarrow> frame (next_addr s) s s' \<Longrightarrow> Get_s T s' root_ptr key = Get_s T s root_ptr key"
proof (cases root_ptr)
  case None
  then show ?thesis by (simp add: Get_s_def)
next
  case (Some r)
  assume wf: "wf_store s root_ptr" and f: "frame (next_addr s) s s'"
  have c: "closed s" and r: "r < next_addr s" using wf Some by (simp_all add: wf_store_def)
  have same: "\<forall>a < next_addr s. objs s' a = objs s a" using f by (simp add: frame_def)
  note W = get_walk_s_frame [OF c same r, of key]
  show ?thesis
  proof (cases "get_walk_s s r key")
    case None
    then show ?thesis using W Some by (simp add: Get_s_def)
  next
    case (Some a)
    then have "a < next_addr s" using W by simp
    then have "objs s' a = objs s a" using same by simp
    then show ?thesis using W Some \<open>root_ptr = Some r\<close> by (simp add: Get_s_def)
  qed
qed

lemma linked_below: "linked s ((c, a) # st) \<Longrightarrow> \<forall>x \<in> set st. snd x < a"
proof (induction st arbitrary: c a)
  case Nil
  then show ?case by simp
next
  case (Cons y st)
  obtain pc p where y: "y = (pc, p)" by (cases y)
  from Cons.prems have pa: "p < a" and l: "linked s ((pc, p) # st)" by (simp_all add: y)
  from Cons.IH [OF l] pa show ?case by (auto simp: y)
qed

lemma linked_tail: "linked s (x # st) \<Longrightarrow> linked s st"
  by (cases x, cases st) auto

lemma linked_cong:
  "\<forall>x \<in> set st. objs s' (snd x) = objs s (snd x) \<Longrightarrow> linked s' st = linked s st"
  by (induction s st rule: linked.induct) (auto simp: children_at_def)

lemma linked_write_top:
  "linked s ((c, a) # st) \<Longrightarrow> linked (write_children a cs s) ((c, a) # st)"
proof (cases st)
  case Nil
  then show ?thesis by simp
next
  case (Cons y st')
  assume l: "linked s ((c, a) # st)"
  obtain pc p where y: "y = (pc, p)" by (cases y)
  from linked_below [OF l] have ne: "\<forall>x \<in> set st. snd x \<noteq> a" by auto
  then have same: "\<forall>x \<in> set st. objs (write_children a cs s) (snd x) = objs s (snd x)"
    by (auto simp: write_children_def)
  have 1: "children_at (write_children a cs s) p = children_at s p"
    using same Cons y by (simp add: children_at_def)
  have 2: "linked (write_children a cs s) st = linked s st" using same by (rule linked_cong)
  show ?thesis using l 1 2 Cons y by simp
qed

lemma linked_alloc:
  "bounded s st \<Longrightarrow> alloc ob s = (a, s') \<Longrightarrow> linked s' st = linked s st"
  by (rule linked_cong) (auto simp: bounded_def alloc_def)

lemma bounded_alloc:
  "bounded s st \<Longrightarrow> alloc ob s = (a, s') \<Longrightarrow> bounded s' ((c, a) # st)"
  by (auto simp: bounded_def alloc_def)

lemma bounded_alloc_tail:
  "bounded s st \<Longrightarrow> alloc ob s = (a, s') \<Longrightarrow> bounded s' st"
  by (auto simp: bounded_def alloc_def)

lemma bounded_write [simp]: "bounded (write_children a cs s) st = bounded s st"
  by (simp add: bounded_def write_children_def)

lemma bounded_tail: "bounded s (x # st) \<Longrightarrow> bounded s st"
  by (simp add: bounded_def)

lemma children_at_write_same [simp]: "children_at (write_children a cs s) a = cs"
  by (cases "objs s a") (simp_all add: children_at_def write_children_def)

lemma children_at_write_other: "b \<noteq> a \<Longrightarrow> children_at (write_children a cs s) b = children_at s b"
  by (simp add: children_at_def write_children_def)

lemma is_value_write_same [simp]:
  "obj_is_value_node (objs (write_children a cs s) a) = obj_is_value_node (objs s a)"
  by (cases "objs s a") (simp_all add: write_children_def)

lemma rm_walk_s_linked:
  "linked s st \<Longrightarrow> bounded s st \<Longrightarrow> st \<noteq> [] \<Longrightarrow>
   \<exists>res s'. rm_walk_s ks st s = Inr (res, s') \<and>
     (\<forall>st'. res = Some st' \<longrightarrow>
        linked s' st' \<and> bounded s' st' \<and> length st + length ks = length st')"
proof (induction ks arbitrary: st s)
  case Nil
  then show ?case by simp
next
  case (Cons c ks)
  from Cons.prems(3) obtain tc top_node below where st: "st = (tc, top_node) # below"
    by (cases st) auto
  show ?case
  proof (cases "map_of (children_at s top_node) c")
    case None
    then show ?thesis using st by simp
  next
    case (Some child)
    obtain slot s0 where cl: "Clone_s child s = (slot, s0)" by (cases "Clone_s child s")
    then have al: "alloc (objs s child) s = (slot, s0)" by (simp add: Clone_s_def)
    have tp: "top_node < next_addr s" using Cons.prems(2) st by (simp add: bounded_def)
    have slot: "slot = next_addr s" using al by (simp add: alloc_def)
    have "children_at s0 top_node = children_at s top_node"
      using al tp by (auto simp: alloc_def children_at_def)
    then have l: "linked s0 ((c, slot) # st)"
      using Some tp slot st linked_alloc [OF Cons.prems(2) al] Cons.prems(1) by simp
    have b: "bounded s0 ((c, slot) # st)" using Cons.prems(2) al by (rule bounded_alloc)
    from Cons.IH [OF l b] obtain res s' where
      w: "rm_walk_s ks ((c, slot) # st) s0 = Inr (res, s')" and
      r: "\<forall>st'. res = Some st' \<longrightarrow>
            linked s' st' \<and> bounded s' st' \<and> length ((c, slot) # st) + length ks = length st'"
      by blast
    have "rm_walk_s (c # ks) st s = Inr (res, s')" using w Some cl st by simp
    then show ?thesis using r by auto
  qed
qed

lemma rm_prune_s_linked:
  "linked s st \<Longrightarrow> bounded s st \<Longrightarrow> st \<noteq> [] \<Longrightarrow> rm_prune_s st s = (st', s')
   \<Longrightarrow> linked s' st' \<and> bounded s' st' \<and> st' \<noteq> []"
proof (induction st s rule: rm_prune_s.induct)
  case (1 char_key top_node pc parent stack_vec s)
  show ?case
  proof (cases "children_at s top_node = [] \<and> \<not> obj_is_value_node (objs s top_node)")
    case True
    let ?s1 = "write_children parent (AList.delete char_key (children_at s parent)) s"
    have l0: "linked s ((pc, parent) # stack_vec)" using "1.prems"(1) by simp
    have l: "linked ?s1 ((pc, parent) # stack_vec)" using l0 by (rule linked_write_top)
    have "bounded s ((pc, parent) # stack_vec)" using "1.prems"(2) by (rule bounded_tail)
    then have b: "bounded ?s1 ((pc, parent) # stack_vec)" by simp
    have r: "rm_prune_s ((pc, parent) # stack_vec) ?s1 = (st', s')"
      using "1.prems"(4) True by simp
    from "1.IH" [OF True l b _ r] show ?thesis by simp
  next
    case False
    then show ?thesis using "1.prems" by auto
  qed
next
  case (2 x s)
  then show ?case by auto
next
  case (3 s)
  then show ?case by auto
qed

lemma rm_delete_s_linked:
  "linked s st \<Longrightarrow> bounded s st \<Longrightarrow> 2 \<le> length st \<Longrightarrow>
   \<exists>st' s'. rm_delete_s st s = Inr (st', s') \<and> linked s' st' \<and> bounded s' st' \<and> st' \<noteq> []"
proof -
  assume l: "linked s st" and b: "bounded s st" and len: "2 \<le> length st"
  from len obtain char_key top_node pc parent stack_vec'
    where st: "st = (char_key, top_node) # (pc, parent) # stack_vec'"
    by (cases st; cases "tl st") auto
  have l1: "linked s ((pc, parent) # stack_vec')" using l st by simp
  have b1: "bounded s ((pc, parent) # stack_vec')" using b st by (simp add: bounded_def)
  have link: "map_of (children_at s parent) char_key \<noteq> None" using l st by simp
  show ?thesis
  proof (cases "obj_is_value_node (objs s top_node)")
    case False
    then show ?thesis using l b st by (simp add: rm_delete_s_def)
  next
    case True
    show ?thesis
    proof (cases "children_at s top_node = []")
      case True
      let ?s1 = "write_children parent (AList.delete char_key (children_at s parent)) s"
      obtain st' s' where r: "rm_prune_s ((pc, parent) # stack_vec') ?s1 = (st', s')"
        by (cases "rm_prune_s ((pc, parent) # stack_vec') ?s1")
      have l2: "linked ?s1 ((pc, parent) # stack_vec')" using l1 by (rule linked_write_top)
      have b2: "bounded ?s1 ((pc, parent) # stack_vec')" using b1 by simp
      from rm_prune_s_linked [OF l2 b2 _ r]
      show ?thesis using r st True \<open>obj_is_value_node (objs s top_node)\<close>
        by (simp add: rm_delete_s_def)
    next
      case False
      obtain plain s0 where al: "alloc (TrieNodeObj (children_at s top_node)) s = (plain, s0)"
        by (cases "alloc (TrieNodeObj (children_at s top_node) :: 'a obj) s")
      let ?s1 = "write_children parent (AList.update char_key plain (children_at s0 parent)) s0"
      have l0: "linked s0 ((pc, parent) # stack_vec')" using linked_alloc [OF b1 al] l1 by simp
      have l2: "linked ?s1 ((pc, parent) # stack_vec')" using l0 by (rule linked_write_top)
      have b2: "bounded ?s1 ((pc, parent) # stack_vec')"
        using bounded_alloc_tail [OF b1 al] by simp
      have "rm_delete_s st s = Inr ((pc, parent) # stack_vec', ?s1)"
        using st False \<open>obj_is_value_node (objs s top_node)\<close> al link
        by (auto simp: rm_delete_s_def)
      then show ?thesis using l2 b2 by simp
    qed
  qed
qed

lemma rm_build_s_linked:
  "linked s ((key_char, slot) # st) \<Longrightarrow> \<exists>r s'. rm_build_s key_char slot st s = Inr (r, s')"
proof (induction st arbitrary: key_char slot s)
  case Nil
  then show ?case by simp
next
  case (Cons x st)
  obtain c top_node where x: "x = (c, top_node)" by (cases x)
  let ?s1 = "write_children top_node (AList.update key_char slot (children_at s top_node)) s"
  have link: "map_of (children_at s top_node) key_char \<noteq> None" using Cons.prems x by simp
  have "linked s ((c, top_node) # st)" using Cons.prems x by simp
  then have "linked ?s1 ((c, top_node) # st)" by (rule linked_write_top)
  from Cons.IH [OF this] show ?case using link x by auto
qed

lemma rm_finish_s_linked:
  "linked s st \<Longrightarrow> st \<noteq> [] \<Longrightarrow> \<exists>r s'. rm_finish_s st s = Inr (r, s')"
proof -
  assume l: "linked s st" and ne: "st \<noteq> []"
  then obtain key_char slot below where st: "st = (key_char, slot) # below"
    by (cases st) auto
  from rm_build_s_linked [of s key_char slot below] l st
  obtain r s' where "rm_build_s key_char slot below s = Inr (r, s')" by auto
  then show ?thesis using st by (simp add: rm_finish_s_def)
qed

lemma Remove_s_total: "\<exists>root' s'. Remove_s s root_ptr key = Inr (root', s')"
proof (cases root_ptr)
  case None
  then show ?thesis by (simp add: Remove_s_def)
next
  case (Some r)
  obtain new_root s0 where cl: "Clone_s r s = (new_root, s0)" by (cases "Clone_s r s")
  then have nr: "new_root < next_addr s0" by (auto simp: Clone_s_def alloc_def)
  have l0: "linked s0 [(CHR ''a'', new_root)]" by simp
  have b0: "bounded s0 [(CHR ''a'', new_root)]" using nr by (simp add: bounded_def)
  from rm_walk_s_linked [OF l0 b0, of key] obtain res s1 where
    w: "rm_walk_s key [(CHR ''a'', new_root)] s0 = Inr (res, s1)" and
    r: "\<forall>st'. res = Some st' \<longrightarrow> linked s1 st' \<and> bounded s1 st' \<and> 1 + length key = length st'"
    by auto
  show ?thesis
  proof (cases res)
    case None
    then show ?thesis using Some cl w by (simp add: Remove_s_def split: prod.split)
  next
    case (Some stack_vec)
    then have l1: "linked s1 stack_vec" and b1: "bounded s1 stack_vec"
      and len: "1 + length key = length stack_vec" using r by auto
    show ?thesis
    proof (cases "key = []")
      case True
      show ?thesis
      proof (cases "children_at s1 r = []")
        case True
        then show ?thesis using \<open>root_ptr = Some r\<close> cl w Some \<open>key = []\<close>
          by (simp add: Remove_s_def)
      next
        case False
        obtain plain s2 where al: "alloc (TrieNodeObj (children_at s1 r)) s1 = (plain, s2)"
          by (cases "alloc (TrieNodeObj (children_at s1 r) :: 'a obj) s1")
        have "linked s2 stack_vec" using linked_alloc [OF b1 al] l1 by simp
        moreover have "stack_vec \<noteq> []" using len by auto
        ultimately obtain r' s' where "rm_finish_s stack_vec s2 = Inr (r', s')"
          using rm_finish_s_linked by blast
        then show ?thesis using \<open>root_ptr = Some r\<close> cl w Some \<open>key = []\<close> False al
          by (simp add: Remove_s_def)
      qed
    next
      case False
      then have "2 \<le> length stack_vec" using len by (cases key) auto
      from rm_delete_s_linked [OF l1 b1 this] obtain st' s2 where
        d: "rm_delete_s stack_vec s1 = Inr (st', s2)" and l2: "linked s2 st'" and ne: "st' \<noteq> []"
        by blast
      from rm_finish_s_linked [OF l2 ne] obtain r' s' where "rm_finish_s st' s2 = Inr (r', s')"
        by blast
      then show ?thesis using \<open>root_ptr = Some r\<close> cl w Some False d
        by (simp add: Remove_s_def)
    qed
  qed
qed

lemma closed_children:
  "closed s \<Longrightarrow> a < next_addr s \<Longrightarrow> x \<in> set (children_at s a) \<Longrightarrow> snd x < next_addr s"
  by (auto simp: closed_def)

lemma closed_child:
  "closed s \<Longrightarrow> a < next_addr s \<Longrightarrow> map_of (children_at s a) c = Some b \<Longrightarrow> b < next_addr s"
  using closed_children [of s a "(c, b)"] by (auto dest: map_of_SomeD)

lemma closed_alloc:
  "closed s \<Longrightarrow> \<forall>x \<in> set (obj_children ob). snd x < next_addr s \<Longrightarrow> alloc ob s = (a, s')
   \<Longrightarrow> closed s'"
proof -
  assume c: "closed s" and ob: "\<forall>x \<in> set (obj_children ob). snd x < next_addr s"
    and al: "alloc ob s = (a, s')"
  have s': "s' = s\<lparr>objs := (objs s)(next_addr s := ob), next_addr := Suc (next_addr s)\<rparr>"
    using al by (auto simp: alloc_def)
  show "closed s'"
    unfolding closed_def
  proof (intro allI impI ballI)
    fix b x assume b: "b < next_addr s'" and x: "x \<in> set (children_at s' b)"
    show "snd x < next_addr s'"
    proof (cases "b = next_addr s")
      case True
      then have "x \<in> set (obj_children ob)" using x by (simp add: s' children_at_def)
      then show ?thesis using ob by (auto simp: s')
    next
      case False
      then have "b < next_addr s" and "x \<in> set (children_at s b)"
        using b x by (simp_all add: s' children_at_def)
      then have "snd x < next_addr s" using c by (auto simp: closed_def)
      then show ?thesis by (simp add: s')
    qed
  qed
qed

lemma closed_Clone_s:
  "closed s \<Longrightarrow> b < next_addr s \<Longrightarrow> Clone_s b s = (a, s') \<Longrightarrow> closed s'"
  unfolding Clone_s_def
  by (rule closed_alloc) (auto simp: closed_def children_at_def)

lemma obj_children_set [simp]: "obj_children (obj_set_children ob cs) = cs"
  by (cases ob) simp_all

lemma closed_write:
  "closed s \<Longrightarrow> \<forall>x \<in> set cs. snd x < next_addr s \<Longrightarrow> closed (write_children a cs s)"
  by (auto simp: closed_def write_children_def children_at_def)

lemma next_write [simp]: "next_addr (write_children a cs s) = next_addr s"
  by (simp add: write_children_def)

lemma next_alloc: "alloc ob s = (a, s') \<Longrightarrow> a = next_addr s \<and> next_addr s' = Suc (next_addr s)"
  by (auto simp: alloc_def)

lemma update_bound:
  "\<forall>x \<in> set al. snd x < (n::nat) \<Longrightarrow> v < n \<Longrightarrow> \<forall>x \<in> set (AList.update k v al). snd x < n"
  using set_update_subset [of k v al] by auto

lemma delete_bound:
  "\<forall>x \<in> set al. snd x < (n::nat) \<Longrightarrow> \<forall>x \<in> set (AList.delete k al). snd x < n"
  using set_delete_subset [of k al] by auto

lemma closed_set_child:
  "closed s \<Longrightarrow> a < next_addr s \<Longrightarrow> b < next_addr s \<Longrightarrow>
   closed (write_children a (AList.update c b (children_at s a)) s)"
proof (rule closed_write)
  assume c: "closed s" and a: "a < next_addr s" and b: "b < next_addr s"
  have "\<forall>x \<in> set (children_at s a). snd x < next_addr s"
    using closed_children [OF c a] by blast
  then show "\<forall>x \<in> set (AList.update c b (children_at s a)). snd x < next_addr s"
    using b by (rule update_bound)
qed

lemma closed_del_child:
  "closed s \<Longrightarrow> a < next_addr s \<Longrightarrow>
   closed (write_children a (AList.delete c (children_at s a)) s)"
proof (rule closed_write)
  assume c: "closed s" and a: "a < next_addr s"
  have "\<forall>x \<in> set (children_at s a). snd x < next_addr s"
    using closed_children [OF c a] by blast
  then show "\<forall>x \<in> set (AList.delete c (children_at s a)). snd x < next_addr s"
    by (rule delete_bound)
qed

lemma put_match_s_closed:
  "closed s \<Longrightarrow> parent < next_addr s \<Longrightarrow> bounded s st \<Longrightarrow>
   put_match_s parent c rest st s = ((c1, rest1, st1), s') \<Longrightarrow> closed s' \<and> bounded s' st1"
proof (induction rest arbitrary: parent c st s)
  case Nil
  then show ?case by simp
next
  case (Cons c' rest)
  show ?case
  proof (cases "map_of (children_at s parent) c")
    case None
    then show ?thesis using Cons.prems by simp
  next
    case (Some child)
    obtain slot s0 where cl: "Clone_s child s = (slot, s0)" by (cases "Clone_s child s")
    have ch: "child < next_addr s" using Cons.prems(1,2) Some by (rule closed_child)
    have c0: "closed s0" using Cons.prems(1) ch cl by (rule closed_Clone_s)
    have al: "alloc (objs s child) s = (slot, s0)" using cl by (simp add: Clone_s_def)
    have sl: "slot < next_addr s0" using next_alloc [OF al] by simp
    have b0: "bounded s0 ((c, slot) # st)" using Cons.prems(3) al by (rule bounded_alloc)
    have m: "put_match_s slot c' rest ((c, slot) # st) s0 = ((c1, rest1, st1), s')"
      using Cons.prems(4) Some cl by simp
    from Cons.IH [OF c0 sl b0 m] show ?thesis .
  qed
qed

lemma put_fresh_s_closed:
  "closed s \<Longrightarrow> bounded s st \<Longrightarrow>
   put_fresh_s c rest st s = ((c1, rest1, st1), s') \<Longrightarrow> closed s' \<and> bounded s' st1"
proof (induction rest arbitrary: c st s)
  case Nil
  then show ?case by simp
next
  case (Cons c' rest)
  obtain slot s0 where al: "alloc (TrieNodeObj []) s = (slot, s0)"
    by (cases "alloc (TrieNodeObj [] :: 'a obj) s")
  have c0: "closed s0" using Cons.prems(1) _ al by (rule closed_alloc) simp
  have b0: "bounded s0 ((c, slot) # st)" using Cons.prems(2) al by (rule bounded_alloc)
  have m: "put_fresh_s c' rest ((c, slot) # st) s0 = ((c1, rest1, st1), s')"
    using Cons.prems(3) al by simp
  from Cons.IH [OF c0 b0 m] show ?case .
qed

lemma put_build_s_closed:
  "closed s \<Longrightarrow> slot < next_addr s \<Longrightarrow> bounded s st \<Longrightarrow>
   put_build_s len it_key key_char slot st s = ((kc, slot'), s')
   \<Longrightarrow> closed s' \<and> slot' < next_addr s' \<and> next_addr s' = next_addr s"
proof (induction st arbitrary: it_key key_char slot s)
  case Nil
  then show ?case by simp
next
  case (Cons x st)
  obtain c top_node where x: "x = (c, top_node)" by (cases x)
  have tp: "top_node < next_addr s" and b: "bounded s st"
    using Cons.prems(3) x by (simp_all add: bounded_def)
  show ?case
  proof (cases "map_of (children_at s top_node) key_char")
    case None
    let ?s1 = "write_children top_node (AList.update key_char slot (children_at s top_node)) s"
    have bd: "put_build_s len 0 c top_node st ?s1 = ((kc, slot'), s')"
      using Cons.prems(4) x None by simp
    have c1: "closed ?s1" using Cons.prems(1) tp Cons.prems(2) by (rule closed_set_child)
    from Cons.IH [OF c1 _ _ bd] tp b show ?thesis by simp
  next
    case (Some old)
    have old: "old < next_addr s" using Cons.prems(1) tp Some by (rule closed_child)
    show ?thesis
    proof (cases "it_key + 1 = len")
      case True
      let ?s1 = "write_children slot (children_at s old) s"
      let ?s2 = "write_children top_node (AList.update key_char slot (children_at ?s1 top_node)) ?s1"
      have bd: "put_build_s len (it_key - 1) c top_node st ?s2 = ((kc, slot'), s')"
        using Cons.prems(4) x Some True by (simp add: Let_def)
      have c1: "closed ?s1"
        using Cons.prems(1) by (rule closed_write) (auto dest: closed_children [OF Cons.prems(1) old])
      have c2: "closed ?s2" using c1 by (rule closed_set_child) (simp_all add: tp Cons.prems(2))
      from Cons.IH [OF c2 _ _ bd] tp b show ?thesis by simp
    next
      case False
      let ?s1 = "write_children top_node (AList.update key_char slot (children_at s top_node)) s"
      have bd: "put_build_s len it_key c top_node st ?s1 = ((kc, slot'), s')"
        using Cons.prems(4) x Some False by simp
      have c1: "closed ?s1" using Cons.prems(1) tp Cons.prems(2) by (rule closed_set_child)
      from Cons.IH [OF c1 _ _ bd] tp b show ?thesis by simp
    qed
  qed
qed

lemma Put_s_wf:
  "wf_store s root_ptr \<Longrightarrow> Put_s s root_ptr key v = (root', s') \<Longrightarrow> wf_store s' root'"
proof -
  assume wf: "wf_store s root_ptr" and P: "Put_s s root_ptr key v = (root', s')"
  have cs: "closed s" using wf by (simp add: wf_store_def)
  obtain fresh_root s0 where a0: "alloc (TrieNodeObj []) s = (fresh_root, s0)"
    by (cases "alloc (TrieNodeObj [] :: 'a obj) s")
  have c0: "closed s0" using cs _ a0 by (rule closed_alloc) simp
  have fr: "fresh_root < next_addr s0" and n0: "next_addr s0 = Suc (next_addr s)"
    using next_alloc [OF a0] by simp_all
  obtain new_root s1 where a1:
    "(case root_ptr of None \<Rightarrow> (fresh_root, s0) | Some r \<Rightarrow> Clone_s r s0) = (new_root, s1)"
    by (cases "(case root_ptr of None \<Rightarrow> (fresh_root, s0) | Some r \<Rightarrow> Clone_s r s0)")
  have c1: "closed s1 \<and> new_root < next_addr s1"
  proof (cases root_ptr)
    case None
    then show ?thesis using a1 fr c0 by simp
  next
    case (Some r)
    then have cl: "Clone_s r s0 = (new_root, s1)" using a1 by simp
    have "r < next_addr s0" using wf Some n0 by (simp add: wf_store_def)
    from closed_Clone_s [OF c0 this cl] next_alloc [of "objs s0 r" s0 new_root s1] cl
    show ?thesis by (simp add: Clone_s_def)
  qed
  then have c1: "closed s1" and nr: "new_root < next_addr s1" by simp_all
  show ?thesis
  proof (cases key)
    case Nil
    obtain tmp s2 where a2: "alloc (TrieNodeWithValueObj (children_at s1 new_root) v) s1 = (tmp, s2)"
      by (cases "alloc (TrieNodeWithValueObj (children_at s1 new_root) v) s1")
    have "closed s2"
      using c1 _ a2 by (rule closed_alloc) (auto dest: closed_children [OF c1 nr])
    moreover have "root' = Some tmp \<and> s' = s2" using P a0 a1 a2 Nil by (auto simp: Put_s_def)
    ultimately show ?thesis using next_alloc [OF a2] by (simp add: wf_store_def)
  next
    case (Cons c rest)
    obtain c1' rest1 stack1 s2 where m: "put_match_s new_root c rest [] s1 = ((c1', rest1, stack1), s2)"
      by (metis prod_cases3 surj_pair)
    from put_match_s_closed [OF c1 nr _ m] have c2: "closed s2" and b1: "bounded s2 stack1"
      by (auto simp: bounded_def)
    have f12: "frame 0 s1 s2"
      using put_match_s_frame [of 0 s1 "[]" new_root c rest c1' rest1 stack1 s2] m by simp
    obtain c2' rest2 stack2 s3 where fr2: "put_fresh_s c1' rest1 stack1 s2 = ((c2', rest2, stack2), s3)"
      by (metis prod_cases3 surj_pair)
    from put_fresh_s_closed [OF c2 b1 fr2] have c3: "closed s3" and b2: "bounded s3 stack2" by auto
    have f23: "frame 0 s2 s3"
      using put_fresh_s_frame [of 0 s2 stack1 c1' rest1 c2' rest2 stack2 s3] fr2
      by (simp add: fresh_stack_def)
    obtain slot s4 where a4: "alloc (TrieNodeWithValueObj [] v) s3 = (slot, s4)"
      by (cases "alloc (TrieNodeWithValueObj [] v) s3")
    have c4: "closed s4" using c3 _ a4 by (rule closed_alloc) simp
    have sl: "slot < next_addr s4" using next_alloc [OF a4] by simp
    have b4: "bounded s4 stack2" using b2 a4 by (rule bounded_alloc_tail)
    obtain key_char slot' s5 where b: "put_build_s (int (length key)) (int (length key) - 1 - int (length rest2)) c2' slot stack2 s4 = ((key_char, slot'), s5)"
      by (metis surj_pair)
    from put_build_s_closed [OF c4 sl b4 b]
    have c5: "closed s5" and sl': "slot' < next_addr s5" and n5: "next_addr s5 = next_addr s4" by auto
    have "next_addr s1 \<le> next_addr s5"
      using f12 f23 next_alloc [OF a4] n5 by (simp add: frame_def)
    then have nr5: "new_root < next_addr s5" using nr by simp
    have "root' = Some new_root \<and>
          s' = write_children new_root (AList.update key_char slot' (children_at s5 new_root)) s5"
      using P a0 a1 Cons m fr2 a4 b by (auto simp: Put_s_def)
    then show ?thesis using closed_set_child [OF c5 nr5 sl'] nr5 by (simp add: wf_store_def)
  qed
qed

lemma rm_walk_s_closed:
  "closed s \<Longrightarrow> bounded s st \<Longrightarrow> rm_walk_s ks st s = Inr (res, s') \<Longrightarrow>
   closed s' \<and> next_addr s \<le> next_addr s' \<and> (\<forall>st'. res = Some st' \<longrightarrow> bounded s' st')"
proof (induction ks arbitrary: st s)
  case Nil
  then show ?case by auto
next
  case (Cons c ks)
  from Cons.prems(3) obtain tc top_node below where st: "st = (tc, top_node) # below"
    by (cases st) auto
  have tp: "top_node < next_addr s" using Cons.prems(2) st by (simp add: bounded_def)
  show ?case
  proof (cases "map_of (children_at s top_node) c")
    case None
    then show ?thesis using Cons.prems st by simp
  next
    case (Some child)
    obtain slot s0 where cl: "Clone_s child s = (slot, s0)" by (cases "Clone_s child s")
    have ch: "child < next_addr s" using Cons.prems(1) tp Some by (rule closed_child)
    have c0: "closed s0" using Cons.prems(1) ch cl by (rule closed_Clone_s)
    have al: "alloc (objs s child) s = (slot, s0)" using cl by (simp add: Clone_s_def)
    have b0: "bounded s0 ((c, slot) # st)" using Cons.prems(2) al by (rule bounded_alloc)
    have w: "rm_walk_s ks ((c, slot) # st) s0 = Inr (res, s')"
      using Cons.prems(3) Some cl st by simp
    from Cons.IH [OF c0 b0 w] next_alloc [OF al] show ?thesis by simp
  qed
qed

lemma rm_prune_s_closed:
  "closed s \<Longrightarrow> bounded s st \<Longrightarrow> rm_prune_s st s = (st', s')
   \<Longrightarrow> closed s' \<and> bounded s' st' \<and> next_addr s' = next_addr s"
proof (induction st s rule: rm_prune_s.induct)
  case (1 char_key top_node pc parent stack_vec s)
  show ?case
  proof (cases "children_at s top_node = [] \<and> \<not> obj_is_value_node (objs s top_node)")
    case True
    let ?s1 = "write_children parent (AList.delete char_key (children_at s parent)) s"
    have p: "parent < next_addr s" using "1.prems"(2) by (simp add: bounded_def)
    have c1: "closed ?s1" using "1.prems"(1) p by (rule closed_del_child)
    have "bounded s ((pc, parent) # stack_vec)" using "1.prems"(2) by (rule bounded_tail)
    then have b1: "bounded ?s1 ((pc, parent) # stack_vec)" by simp
    have r: "rm_prune_s ((pc, parent) # stack_vec) ?s1 = (st', s')"
      using "1.prems"(3) True by simp
    from "1.IH" [OF True c1 b1 r] show ?thesis by simp
  next
    case False
    then show ?thesis using "1.prems" by auto
  qed
next
  case (2 x s)
  then show ?case by auto
next
  case (3 s)
  then show ?case by auto
qed

lemma rm_delete_s_closed:
  "closed s \<Longrightarrow> bounded s st \<Longrightarrow> rm_delete_s st s = Inr (st', s')
   \<Longrightarrow> closed s' \<and> bounded s' st'"
proof -
  assume c: "closed s" and b: "bounded s st" and d: "rm_delete_s st s = Inr (st', s')"
  from d obtain char_key top_node below where st: "st = (char_key, top_node) # below"
    by (cases st) (auto simp: rm_delete_s_def)
  have tp: "top_node < next_addr s" using b st by (simp add: bounded_def)
  show ?thesis
  proof (cases "obj_is_value_node (objs s top_node)")
    case False
    then show ?thesis using d st b c by (simp add: rm_delete_s_def)
  next
    case True
    from d True st obtain pc parent stack_vec' where below: "below = (pc, parent) # stack_vec'"
      by (cases below) (auto simp: rm_delete_s_def split: if_splits)
    have p: "parent < next_addr s" and b': "bounded s ((pc, parent) # stack_vec')"
      using b st below by (simp_all add: bounded_def)
    show ?thesis
    proof (cases "children_at s top_node = []")
      case True
      let ?s1 = "write_children parent (AList.delete char_key (children_at s parent)) s"
      have r: "rm_prune_s ((pc, parent) # stack_vec') ?s1 = (st', s')"
        using d st below \<open>obj_is_value_node (objs s top_node)\<close> True by (simp add: rm_delete_s_def)
      have c1: "closed ?s1" using c p by (rule closed_del_child)
      have b1: "bounded ?s1 ((pc, parent) # stack_vec')" using b' by simp
      from rm_prune_s_closed [OF c1 b1 r] show ?thesis by simp
    next
      case False
      obtain plain s0 where al: "alloc (TrieNodeObj (children_at s top_node)) s = (plain, s0)"
        by (cases "alloc (TrieNodeObj (children_at s top_node) :: 'a obj) s")
      have c0: "closed s0"
        using c _ al by (rule closed_alloc) (auto dest: closed_children [OF c tp])
      have n0: "plain < next_addr s0" "parent < next_addr s0" using next_alloc [OF al] p by simp_all
      have eq: "st' = (pc, parent) # stack_vec' \<and>
            s' = write_children parent (AList.update char_key plain (children_at s0 parent)) s0"
        using d st below \<open>obj_is_value_node (objs s top_node)\<close> False al
        by (auto simp: rm_delete_s_def split: option.splits)
      have "closed s'" using eq closed_set_child [OF c0 n0(2) n0(1)] by simp
      moreover have "bounded s' st'" using eq bounded_alloc_tail [OF b' al] by simp
      ultimately show ?thesis by simp
    qed
  qed
qed

lemma rm_build_s_closed:
  "closed s \<Longrightarrow> slot < next_addr s \<Longrightarrow> bounded s st \<Longrightarrow>
   rm_build_s key_char slot st s = Inr (r, s')
   \<Longrightarrow> closed s' \<and> r < next_addr s' \<and> next_addr s' = next_addr s"
proof (induction st arbitrary: key_char slot s)
  case Nil
  then show ?case by simp
next
  case (Cons x st)
  obtain c top_node where x: "x = (c, top_node)" by (cases x)
  have tp: "top_node < next_addr s" and b: "bounded s st"
    using Cons.prems(3) x by (simp_all add: bounded_def)
  let ?s1 = "write_children top_node (AList.update key_char slot (children_at s top_node)) s"
  have bd: "rm_build_s c top_node st ?s1 = Inr (r, s')"
    using Cons.prems(4) x by (simp split: option.splits)
  have c1: "closed ?s1" using Cons.prems(1) tp Cons.prems(2) by (rule closed_set_child)
  from Cons.IH [OF c1 _ _ bd] tp b show ?case by simp
qed

lemma rm_finish_s_closed:
  "closed s \<Longrightarrow> bounded s st \<Longrightarrow> rm_finish_s st s = Inr (root', s')
   \<Longrightarrow> wf_store s' root'"
proof -
  assume c: "closed s" and b: "bounded s st" and f: "rm_finish_s st s = Inr (root', s')"
  from f obtain key_char slot below where st: "st = (key_char, slot) # below"
    by (cases st) (auto simp: rm_finish_s_def)
  from f st obtain new_root where bd: "rm_build_s key_char slot below s = Inr (new_root, s')"
    and r: "root' = None \<or> root' = Some new_root"
    by (auto simp: rm_finish_s_def split: sum.splits if_splits)
  have "slot < next_addr s" "bounded s below" using b st by (simp_all add: bounded_def)
  from rm_build_s_closed [OF c this bd] r show ?thesis by (auto simp: wf_store_def)
qed

lemma Remove_s_wf:
  "wf_store s root_ptr \<Longrightarrow> Remove_s s root_ptr key = Inr (root', s') \<Longrightarrow> wf_store s' root'"
proof (cases root_ptr)
  case None
  assume "wf_store s root_ptr" "Remove_s s root_ptr key = Inr (root', s')"
  then show ?thesis using None by (auto simp: Remove_s_def wf_store_def)
next
  case (Some r)
  assume wf: "wf_store s root_ptr" and R: "Remove_s s root_ptr key = Inr (root', s')"
  have cs: "closed s" and r: "r < next_addr s" using wf Some by (simp_all add: wf_store_def)
  obtain new_root s0 where cl: "Clone_s r s = (new_root, s0)" by (cases "Clone_s r s")
  have al: "alloc (objs s r) s = (new_root, s0)" using cl by (simp add: Clone_s_def)
  have c0: "closed s0" using cs r cl by (rule closed_Clone_s)
  have b0: "bounded s0 [(CHR ''a'', new_root)]" using next_alloc [OF al] by (simp add: bounded_def)
  have r0: "r < next_addr s0" using r next_alloc [OF al] by simp
  from R Some cl obtain res s1 where w: "rm_walk_s key [(CHR ''a'', new_root)] s0 = Inr (res, s1)"
    by (auto simp: Remove_s_def split: sum.splits)
  from rm_walk_s_closed [OF c0 b0 w]
  have c1: "closed s1" and n1: "next_addr s0 \<le> next_addr s1"
    and b1: "\<forall>st'. res = Some st' \<longrightarrow> bounded s1 st'" by auto
  have r1: "r < next_addr s1" using r0 n1 by simp
  show ?thesis
  proof (cases res)
    case None
    obtain nr2 s2 where cl2: "Clone_s r s1 = (nr2, s2)" by (cases "Clone_s r s1")
    have eq: "root' = Some nr2 \<and> s' = s2" using R Some cl w None cl2 by (auto simp: Remove_s_def)
    have "closed s2" using c1 r1 cl2 by (rule closed_Clone_s)
    moreover have "nr2 < next_addr s2" using cl2 by (auto simp: Clone_s_def alloc_def)
    ultimately show ?thesis using eq by (simp add: wf_store_def)
  next
    case (Some stack_vec)
    then have bs: "bounded s1 stack_vec" using b1 by simp
    show ?thesis
    proof (cases "key = []")
      case True
      show ?thesis
      proof (cases "children_at s1 r = []")
        case True
        then have "root' = None \<and> s' = s1" using R \<open>root_ptr = Some r\<close> cl w Some \<open>key = []\<close>
          by (auto simp: Remove_s_def)
        then show ?thesis using c1 by (simp add: wf_store_def)
      next
        case False
        obtain plain s2 where al2: "alloc (TrieNodeObj (children_at s1 r)) s1 = (plain, s2)"
          by (cases "alloc (TrieNodeObj (children_at s1 r) :: 'a obj) s1")
        have c2: "closed s2"
          using c1 _ al2 by (rule closed_alloc) (auto dest: closed_children [OF c1 r1])
        have b2: "bounded s2 stack_vec" using bs al2 by (rule bounded_alloc_tail)
        have "rm_finish_s stack_vec s2 = Inr (root', s')"
          using R \<open>root_ptr = Some r\<close> cl w Some \<open>key = []\<close> False al2 by (simp add: Remove_s_def)
        from rm_finish_s_closed [OF c2 b2 this] show ?thesis .
      qed
    next
      case False
      from R \<open>root_ptr = Some r\<close> cl w Some False obtain stack_vec' s2
        where d: "rm_delete_s stack_vec s1 = Inr (stack_vec', s2)"
          and fin: "rm_finish_s stack_vec' s2 = Inr (root', s')"
        by (auto simp: Remove_s_def split: sum.splits)
      from rm_delete_s_closed [OF c1 bs d] have c2: "closed s2" and b2: "bounded s2 stack_vec'"
        by auto
      from rm_finish_s_closed [OF c2 b2 fin] show ?thesis .
    qed
  qed
qed

section \<open>More lemmas about Put and Remove\<close>

lemma lookup_node_fresh [simp]: "lookup_node T (TrieNode []) ks = None"
  by (rule lookup_node_no_children) simp_all

lemma lookup_child_or_fresh:
  "lookup_node T (child_or_fresh n c) ks = lookup_node T n (c # ks)"
  by (simp add: child_or_fresh_def lookup_node_Cons split: option.split)

lemma lookup_node_put_node_other:
  "ks2 \<noteq> c # rest \<Longrightarrow> lookup_node T (put_node n c rest v) ks2 = lookup_node T n ks2"
proof (induction rest arbitrary: n c ks2)
  case Nil
  show ?case
  proof (cases ks2)
    case Nil
    then show ?thesis by simp
  next
    case (Cons c2 r2)
    show ?thesis
    proof (cases "c2 = c")
      case True
      then obtain c3 r3 where r2: "r2 = c3 # r3" using Nil Cons by (cases r2) auto
      have "lookup_node T (TrieNodeWithValue (children (child_or_fresh n c)) v) (c3 # r3)
            = lookup_node T (child_or_fresh n c) (c3 # r3)"
        by (simp add: lookup_node_Cons)
      then show ?thesis using True Cons r2 by (simp add: lookup_child_or_fresh)
    next
      case False
      then show ?thesis using Cons by simp
    qed
  qed
next
  case (Cons c' rest)
  show ?case
  proof (cases ks2)
    case Nil
    then show ?thesis by simp
  next
    case (Cons c2 r2)
    show ?thesis
    proof (cases "c2 = c")
      case True
      then have "r2 \<noteq> c' # rest" using Cons.prems Cons by simp
      from Cons.IH [OF this] show ?thesis using True Cons by (simp add: lookup_child_or_fresh)
    next
      case False
      then show ?thesis using Cons by simp
    qed
  qed
qed

lemma Get_root_or_fresh:
  "Get T t ks = lookup_node T (case root t of None \<Rightarrow> TrieNode [] | Some r \<Rightarrow> r) ks"
  by (cases t) (simp add: Get_None_root Get_Some_root split: option.split)

lemma remove_node_Interrupted_same:
  "remove_node n ks = Interrupted \<Longrightarrow> lookup_node T n ks = None"
proof (induction ks arbitrary: n)
  case Nil
  then show ?case by (simp split: if_splits)
next
  case (Cons k ks)
  show ?case
  proof (cases "map_of (children n) k")
    case None
    then show ?thesis by (simp add: lookup_node_Cons)
  next
    case (Some ch)
    then have "remove_node ch ks = Interrupted"
      using Cons.prems unfolding remove_node_Cons_Interrupted by simp
    from Cons.IH [OF this] show ?thesis using Some by (simp add: lookup_node_Cons)
  qed
qed

lemma remove_node_Replaced_same:
  "remove_node n ks = Replaced n' \<Longrightarrow> lookup_node T n' ks = None"
proof (induction ks arbitrary: n n')
  case Nil
  then show ?case by (auto simp: lookup_node_Nil split: if_splits)
next
  case (Cons k ks)
  from Cons.prems obtain ch where ch: "map_of (children n) k = Some ch"
    and alt: "(remove_node ch ks = Pruned \<and> n' = del_child n k) \<or>
              (\<exists>ch'. remove_node ch ks = Replaced ch' \<and> n' = set_child n k ch')"
    unfolding remove_node_Cons_Replaced by blast
  from alt show ?case
  proof
    assume "remove_node ch ks = Pruned \<and> n' = del_child n k"
    then show ?thesis by simp
  next
    assume "\<exists>ch'. remove_node ch ks = Replaced ch' \<and> n' = set_child n k ch'"
    then obtain ch' where a: "remove_node ch ks = Replaced ch'" and n': "n' = set_child n k ch'"
      by blast
    from Cons.IH [OF a] show ?thesis using n' by simp
  qed
qed

section \<open>The store functions compute the tree functions\<close>

lemma rep_iff: "rep P s a n \<longleftrightarrow> P a \<and> rep1 P s a n"
  by (cases n) (auto simp: rep1_def kids_rel_def)

lemma kids_rel_mono:
  "kids_rel R cs ns \<Longrightarrow> (\<And>x y. x \<in> set cs \<Longrightarrow> y \<in> set ns \<Longrightarrow> R (snd x) (snd y) \<Longrightarrow> R' (snd x) (snd y))
   \<Longrightarrow> kids_rel R' cs ns"
  unfolding kids_rel_def by (erule list.rel_mono_strong) auto

lemma rep_mono_cong:
  "rep P s a n \<Longrightarrow> (\<And>b. P b \<Longrightarrow> Q b \<and> objs s' b = objs s b) \<Longrightarrow> rep Q s' a n"
proof (induction P s a n rule: rep.induct)
  case (1 P s a ns)
  have eq: "objs s' a = objs s a" and Q: "Q a" using 1 by auto
  have "list_all2 (\<lambda>x y. fst x = fst y \<and> rep Q s' (snd x) (snd y)) (children_at s a) ns"
    using "1.prems"(1) "1.IH" "1.prems"(2)
    by (auto elim!: list.rel_mono_strong)
  then show ?case using eq Q "1.prems"(1) by (simp add: children_at_def)
next
  case (2 P s a ns v)
  have eq: "objs s' a = objs s a" and Q: "Q a" using 2 by auto
  have "list_all2 (\<lambda>x y. fst x = fst y \<and> rep Q s' (snd x) (snd y)) (children_at s a) ns"
    using "2.prems"(1) "2.IH" "2.prems"(2)
    by (auto elim!: list.rel_mono_strong)
  then show ?case using eq Q "2.prems"(1) by (simp add: children_at_def)
qed

lemma rep1_mono_cong:
  "rep1 P s a n \<Longrightarrow> objs s' a = objs s a \<Longrightarrow> (\<And>b. P b \<Longrightarrow> Q b \<and> objs s' b = objs s b)
   \<Longrightarrow> rep1 Q s' a n"
  unfolding rep1_def
  by (auto simp: children_at_def elim!: kids_rel_mono intro: rep_mono_cong)

lemma kids_rel_map_of:
  "kids_rel R cs ns \<Longrightarrow> rel_option R (map_of cs c) (map_of ns c)"
  unfolding kids_rel_def
  by (induction cs ns rule: list_all2_induct) auto

lemma kids_rel_update:
  "kids_rel R cs ns \<Longrightarrow> R b m \<Longrightarrow> kids_rel R (AList.update c b cs) (AList.update c m ns)"
  unfolding kids_rel_def
  by (induction cs ns rule: list_all2_induct) auto

lemma kids_rel_delete:
  "kids_rel R cs ns \<Longrightarrow> kids_rel R (AList.delete c cs) (AList.delete c ns)"
  unfolding kids_rel_def
  by (induction cs ns rule: list_all2_induct) auto

lemma kids_rel_Nil_iff: "kids_rel R cs ns \<Longrightarrow> cs = [] \<longleftrightarrow> ns = []"
  unfolding kids_rel_def by (cases cs; cases ns) auto

lemma kids_rel_Nil [simp]: "kids_rel R [] []"
  by (simp add: kids_rel_def)

lemma stack_rel_Nil [simp]: "stack_rel n0 s [] []"
  by (simp add: stack_rel_def)

lemma stack_rel_Cons:
  "stack_rel n0 s ((c, a) # ss) ((c', n) # st) \<longleftrightarrow>
     c = c' \<and> rep1 (\<lambda>b. b < n0) s a n \<and> n0 \<le> a \<and> a < next_addr s \<and>
     (\<forall>x \<in> set ss. snd x < a) \<and> stack_rel n0 s ss st"
  by (auto simp: stack_rel_def)

lemma stack_rel_Cons_left:
  "stack_rel n0 s ((c, a) # ss) st \<Longrightarrow> \<exists>n st'. st = (c, n) # st'"
  by (cases st) (auto simp: stack_rel_def)

lemma stack_rel_Nil_left: "stack_rel n0 s [] st \<Longrightarrow> st = []"
  by (simp add: stack_rel_def)

lemma stack_rel_bounded: "stack_rel n0 s ss st \<Longrightarrow> x \<in> set ss \<Longrightarrow> n0 \<le> snd x \<and> snd x < next_addr s"
  unfolding stack_rel_def by (auto simp: list_all2_conv_all_nth in_set_conv_nth)

lemma rep1_transfer:
  "rep1 P s a n \<Longrightarrow> objs s' a' = objs s a \<Longrightarrow> (\<And>b. P b \<Longrightarrow> Q b \<and> objs s' b = objs s b)
   \<Longrightarrow> rep1 Q s' a' n"
  unfolding rep1_def
  by (auto simp: children_at_def elim!: kids_rel_mono intro: rep_mono_cong)

lemma stack_rel_cong:
  "stack_rel n0 s ss st \<Longrightarrow> (\<And>b. b < n0 \<Longrightarrow> objs s' b = objs s b) \<Longrightarrow>
   (\<And>x. x \<in> set ss \<Longrightarrow> objs s' (snd x) = objs s (snd x)) \<Longrightarrow> next_addr s \<le> next_addr s'
   \<Longrightarrow> stack_rel n0 s' ss st"
  unfolding stack_rel_def
  by (auto elim!: list.rel_mono_strong intro: rep1_transfer)

lemma rep1_child:
  "rep1 P s a n \<Longrightarrow> rel_option (rep P s) (map_of (children_at s a) c) (map_of (children n) c)"
  unfolding rep1_def by (auto intro: kids_rel_map_of)

lemma rep_rep1: "rep P s a n \<Longrightarrow> rep1 P s a n"
  by (simp add: rep_iff)

lemma alloc_objs_old: "alloc ob s = (a, s') \<Longrightarrow> b < next_addr s \<Longrightarrow> objs s' b = objs s b"
  by (auto simp: alloc_def)

lemma alloc_objs_new: "alloc ob s = (a, s') \<Longrightarrow> objs s' a = ob"
  by (auto simp: alloc_def)

lemma put_match_sim:
  "n0 \<le> next_addr s \<Longrightarrow> stack_rel n0 s ss st \<Longrightarrow> rep1 (\<lambda>b. b < n0) s parent pn \<Longrightarrow>
   put_match_s parent c rest ss s = ((c1, rest1, ss'), s') \<Longrightarrow>
   \<exists>st'. put_match pn c rest st = (c1, rest1, st') \<and> stack_rel n0 s' ss' st' \<and>
         (\<forall>b < next_addr s. objs s' b = objs s b) \<and> next_addr s \<le> next_addr s'"
proof (induction rest arbitrary: parent pn c ss st s)
  case Nil
  then show ?case by simp
next
  case (Cons c' rest)
  note ro = rep1_child [OF Cons.prems(3), of c]
  show ?case
  proof (cases "map_of (children_at s parent) c")
    case None
    then have "map_of (children pn) c = None" using ro by simp
    then have "put_match pn c (c' # rest) st = (c, c' # rest, st)" by simp
    then show ?thesis using None Cons.prems by auto
  next
    case (Some child)
    then obtain cn where cn: "map_of (children pn) c = Some cn" and rc: "rep (\<lambda>b. b < n0) s child cn"
      using ro by (auto simp: option_rel_Some1)
    obtain slot s0 where cl: "Clone_s child s = (slot, s0)" by (cases "Clone_s child s")
    then have al: "alloc (objs s child) s = (slot, s0)" by (simp add: Clone_s_def)
    have slot: "slot = next_addr s" and n0': "next_addr s0 = Suc (next_addr s)"
      using next_alloc [OF al] by simp_all
    have old: "\<And>b. b < next_addr s \<Longrightarrow> objs s0 b = objs s b" using al by (rule alloc_objs_old)
    have r1: "rep1 (\<lambda>b. b < n0) s0 slot cn"
      using rep_rep1 [OF rc] alloc_objs_new [OF al] old Cons.prems(1)
      by (auto intro: rep1_transfer)
    have sr0: "stack_rel n0 s0 ss st"
      using Cons.prems(2) by (rule stack_rel_cong)
         (use old Cons.prems(1) stack_rel_bounded [OF Cons.prems(2)] n0' in auto)
    have sr: "stack_rel n0 s0 ((c, slot) # ss) ((c, cn) # st)"
      using sr0 r1 slot n0' Cons.prems(1) stack_rel_bounded [OF Cons.prems(2)]
      by (auto simp: stack_rel_Cons)
    have m: "put_match_s slot c' rest ((c, slot) # ss) s0 = ((c1, rest1, ss'), s')"
      using Cons.prems(4) Some cl by simp
    have "n0 \<le> next_addr s0" using Cons.prems(1) n0' by simp
    from Cons.IH [OF this sr r1 m] obtain st' where
      "put_match cn c' rest ((c, cn) # st) = (c1, rest1, st')" "stack_rel n0 s' ss' st'"
      "\<forall>b < next_addr s0. objs s' b = objs s0 b" "next_addr s0 \<le> next_addr s'"
      by blast
    then show ?thesis using cn old n0' by (auto simp: Let_def)
  qed
qed

lemma put_fresh_sim:
  "n0 \<le> next_addr s \<Longrightarrow> stack_rel n0 s ss st \<Longrightarrow>
   put_fresh_s c rest ss s = ((c1, rest1, ss'), s') \<Longrightarrow>
   \<exists>st'. put_fresh c rest st = (c1, rest1, st') \<and> stack_rel n0 s' ss' st' \<and>
         (\<forall>b < next_addr s. objs s' b = objs s b) \<and> next_addr s \<le> next_addr s'"
proof (induction rest arbitrary: c ss st s)
  case Nil
  then show ?case by simp
next
  case (Cons c' rest)
  obtain slot s0 where al: "alloc (TrieNodeObj []) s = (slot, s0)"
    by (cases "alloc (TrieNodeObj [] :: 'a obj) s")
  have slot: "slot = next_addr s" and n0': "next_addr s0 = Suc (next_addr s)"
    using next_alloc [OF al] by simp_all
  have old: "\<And>b. b < next_addr s \<Longrightarrow> objs s0 b = objs s b" using al by (rule alloc_objs_old)
  have r1: "rep1 (\<lambda>b. b < n0) s0 slot (TrieNode [])"
    using alloc_objs_new [OF al] by (simp add: rep1_def children_at_def)
  have sr0: "stack_rel n0 s0 ss st"
    using Cons.prems(2) by (rule stack_rel_cong)
       (use old Cons.prems(1) stack_rel_bounded [OF Cons.prems(2)] n0' in auto)
  have sr: "stack_rel n0 s0 ((c, slot) # ss) ((c, TrieNode []) # st)"
    using sr0 r1 slot n0' Cons.prems(1) stack_rel_bounded [OF Cons.prems(2)]
    by (auto simp: stack_rel_Cons)
  have m: "put_fresh_s c' rest ((c, slot) # ss) s0 = ((c1, rest1, ss'), s')"
    using Cons.prems(3) al by simp
  have "n0 \<le> next_addr s0" using Cons.prems(1) n0' by simp
  from Cons.IH [OF this sr m] obtain st' where
    "put_fresh c' rest ((c, TrieNode []) # st) = (c1, rest1, st')" "stack_rel n0 s' ss' st'"
    "\<forall>b < next_addr s0. objs s' b = objs s0 b" "next_addr s0 \<le> next_addr s'"
    by blast
  then show ?case using old n0' by auto
qed

lemma write_objs_other: "b \<noteq> a \<Longrightarrow> objs (write_children a cs s) b = objs s b"
  by (simp add: write_children_def)

lemma same_kind_write [simp]:
  "same_kind (objs (write_children a cs s) a) (set_children n cs') = same_kind (objs s a) n"
  by (cases n; cases "objs s a") (simp_all add: write_children_def)

lemma rep1_same_kind: "rep1 P s a n \<Longrightarrow> same_kind (objs s a) n"
  by (simp add: rep1_def)

lemma upper_old: "b < n0 \<Longrightarrow> upper n0 a s b"
  by (simp add: upper_def)

lemma link_step:
  assumes top: "rep1 (\<lambda>b. b < n0) s a top_t"
    and slot: "rep1 (upper n0 slot s) s slot slot_t"
    and a: "n0 \<le> a" "a < slot" "slot < next_addr s"
  shows "rep1 (upper n0 a (write_children a (AList.update kc slot (children_at s a)) s))
           (write_children a (AList.update kc slot (children_at s a)) s) a
           (set_children top_t (AList.update kc slot_t (children top_t)))"
proof -
  let ?s' = "write_children a (AList.update kc slot (children_at s a)) s"
  let ?U = "upper n0 a ?s'"
  have other: "\<And>b. b \<noteq> a \<Longrightarrow> objs ?s' b = objs s b" by (rule write_objs_other)
  have k: "kids_rel (rep (\<lambda>b. b < n0) s) (children_at s a) (children top_t)"
    using top by (simp add: rep1_def)
  have k': "kids_rel (rep ?U ?s') (children_at s a) (children top_t)"
    using k by (rule kids_rel_mono) (rule rep_mono_cong, assumption, use a other in \<open>auto simp: upper_def\<close>)
  have "rep1 ?U ?s' slot slot_t"
    using slot by (rule rep1_mono_cong) (use a other in \<open>auto simp: upper_def\<close>)
  then have "rep ?U ?s' slot slot_t" using a by (simp add: rep_iff upper_def)
  with k' have "kids_rel (rep ?U ?s') (AList.update kc slot (children_at s a))
                  (AList.update kc slot_t (children top_t))"
    by (rule kids_rel_update)
  then show ?thesis using rep1_same_kind [OF top] by (simp add: rep1_def)
qed

lemma inherit_step:
  assumes old: "rep (\<lambda>b. b < n0) s old_a old_t"
    and kind: "same_kind (objs s slot) slot_t"
    and n0: "n0 \<le> slot"
  shows "rep1 (upper n0 slot (write_children slot (children_at s old_a) s))
           (write_children slot (children_at s old_a) s) slot
           (set_children slot_t (children old_t))"
proof -
  let ?s' = "write_children slot (children_at s old_a) s"
  have other: "\<And>b. b \<noteq> slot \<Longrightarrow> objs ?s' b = objs s b" by (rule write_objs_other)
  have k: "kids_rel (rep (\<lambda>b. b < n0) s) (children_at s old_a) (children old_t)"
    using rep_rep1 [OF old] by (simp add: rep1_def)
  have "kids_rel (rep (upper n0 slot ?s') ?s') (children_at s old_a) (children old_t)"
    using k by (rule kids_rel_mono) (rule rep_mono_cong, assumption, use n0 other in \<open>auto simp: upper_def\<close>)
  then show ?thesis using kind by (simp add: rep1_def)
qed

lemma put_build_sim:
  "stack_rel n0 s ss st \<Longrightarrow> rep1 (upper n0 slot s) s slot slot_t \<Longrightarrow>
   \<forall>x \<in> set ss. snd x < slot \<Longrightarrow> slot < next_addr s \<Longrightarrow> n0 \<le> slot \<Longrightarrow>
   put_build_s len it_key kc slot ss s = ((kc', slot'), s') \<Longrightarrow>
   \<exists>slot_t'. put_build len it_key kc slot_t st = (kc', slot_t') \<and>
      rep1 (upper n0 slot' s') s' slot' slot_t' \<and> n0 \<le> slot' \<and> slot' \<le> slot \<and>
      next_addr s' = next_addr s \<and> (\<forall>b. b < slot' \<longrightarrow> objs s' b = objs s b)"
proof (induction ss arbitrary: st it_key kc slot slot_t s)
  case Nil
  then have "st = []" by (simp add: stack_rel_Nil_left)
  then show ?case using Nil by simp
next
  case (Cons x ss)
  obtain c a where x: "x = (c, a)" by (cases x)
  from Cons.prems(1) obtain top_t st' where st: "st = (c, top_t) # st'"
    using stack_rel_Cons_left x by blast
  from Cons.prems(1) have top: "rep1 (\<lambda>b. b < n0) s a top_t" and a0: "n0 \<le> a"
    and an: "a < next_addr s" and below: "\<forall>x \<in> set ss. snd x < a" and sr: "stack_rel n0 s ss st'"
    by (simp_all add: x st stack_rel_Cons)
  have as: "a < slot" using Cons.prems(3) x by simp
  note ro = rep1_child [OF top, of kc]
  have step: "\<And>s1 slot_t1 it'.
      rep1 (upper n0 slot s1) s1 slot slot_t1 \<Longrightarrow> rep1 (\<lambda>b. b < n0) s1 a top_t \<Longrightarrow>
      stack_rel n0 s1 ss st' \<Longrightarrow> next_addr s1 = next_addr s \<Longrightarrow>
      children_at s1 a = children_at s a \<Longrightarrow>
      (\<forall>b. b < a \<longrightarrow> objs s1 b = objs s b) \<Longrightarrow>
      put_build_s len it' c a ss
        (write_children a (AList.update kc slot (children_at s a)) s1) = ((kc', slot'), s') \<Longrightarrow>
      \<exists>slot_t'. put_build len it' c
          (set_children top_t (AList.update kc slot_t1 (children top_t))) st' = (kc', slot_t') \<and>
        rep1 (upper n0 slot' s') s' slot' slot_t' \<and> n0 \<le> slot' \<and> slot' \<le> slot \<and>
        next_addr s' = next_addr s \<and> (\<forall>b. b < slot' \<longrightarrow> objs s' b = objs s b)"
  proof -
    fix s1 slot_t1 it'
    assume sl1: "rep1 (upper n0 slot s1) s1 slot slot_t1" and top1: "rep1 (\<lambda>b. b < n0) s1 a top_t"
      and sr1: "stack_rel n0 s1 ss st'" and n1: "next_addr s1 = next_addr s"
      and ch1: "children_at s1 a = children_at s a"
      and low1: "\<forall>b. b < a \<longrightarrow> objs s1 b = objs s b"
      and b: "put_build_s len it' c a ss
        (write_children a (AList.update kc slot (children_at s a)) s1) = ((kc', slot'), s')"
    let ?s2 = "write_children a (AList.update kc slot (children_at s1 a)) s1"
    let ?t2 = "set_children top_t (AList.update kc slot_t1 (children top_t))"
    have r2: "rep1 (upper n0 a ?s2) ?s2 a ?t2"
      using top1 sl1 a0 as Cons.prems(4) n1 by (intro link_step) simp_all
    have sr2: "stack_rel n0 ?s2 ss st'"
      using sr1 by (rule stack_rel_cong) (use a0 below in \<open>auto simp: write_objs_other\<close>)
    have b2: "put_build_s len it' c a ss ?s2 = ((kc', slot'), s')" using b ch1 by simp
    from Cons.IH [OF sr2 r2 below _ a0 b2] an n1 obtain slot_t' where
      r: "put_build len it' c ?t2 st' = (kc', slot_t')" "rep1 (upper n0 slot' s') s' slot' slot_t'"
         "n0 \<le> slot'" "slot' \<le> a" "next_addr s' = next_addr ?s2"
         "\<forall>b. b < slot' \<longrightarrow> objs s' b = objs ?s2 b"
      by auto
    have "\<forall>b. b < slot' \<longrightarrow> objs s' b = objs s b"
      using r(4,6) low1 by (auto simp: write_objs_other)
    then show "\<exists>slot_t'. put_build len it' c ?t2 st' = (kc', slot_t') \<and>
        rep1 (upper n0 slot' s') s' slot' slot_t' \<and> n0 \<le> slot' \<and> slot' \<le> slot \<and>
        next_addr s' = next_addr s \<and> (\<forall>b. b < slot' \<longrightarrow> objs s' b = objs s b)"
      using r as n1 by auto
  qed
  show ?case
  proof (cases "map_of (children_at s a) kc")
    case None
    then have nt: "map_of (children top_t) kc = None" using ro by simp
    have b: "put_build_s len 0 c a ss
        (write_children a (AList.update kc slot (children_at s a)) s) = ((kc', slot'), s')"
      using Cons.prems(6) x None by simp
    from step [OF Cons.prems(2) top sr _ _ _ b] show ?thesis using nt st by simp
  next
    case (Some old_a)
    then obtain old_t where ot: "map_of (children top_t) kc = Some old_t"
      and ro': "rep (\<lambda>b. b < n0) s old_a old_t"
      using ro by (auto simp: option_rel_Some1)
    show ?thesis
    proof (cases "it_key + 1 = len")
      case False
      have b: "put_build_s len it_key c a ss
          (write_children a (AList.update kc slot (children_at s a)) s) = ((kc', slot'), s')"
        using Cons.prems(6) x Some False by simp
      from step [OF Cons.prems(2) top sr _ _ _ b] show ?thesis using ot st False by simp
    next
      case True
      let ?s1 = "write_children slot (children_at s old_a) s"
      let ?t1 = "set_children slot_t (children old_t)"
      have other: "\<And>b. b \<noteq> slot \<Longrightarrow> objs ?s1 b = objs s b" by (rule write_objs_other)
      have sl1: "rep1 (upper n0 slot ?s1) ?s1 slot ?t1"
        using ro' rep1_same_kind [OF Cons.prems(2)] Cons.prems(5) by (rule inherit_step)
      have top1: "rep1 (\<lambda>b. b < n0) ?s1 a top_t"
        using top by (rule rep1_mono_cong) (use as Cons.prems(5) other in auto)
      have sr1: "stack_rel n0 ?s1 ss st'"
        using sr by (rule stack_rel_cong) (use Cons.prems(3,5) other in auto)
      have ch1: "children_at ?s1 a = children_at s a"
        using as by (simp add: children_at_write_other)
      have b: "put_build_s len (it_key - 1) c a ss
          (write_children a (AList.update kc slot (children_at s a)) ?s1) = ((kc', slot'), s')"
        using Cons.prems(6) x Some True ch1 by (simp add: Let_def)
      have low: "\<forall>b. b < a \<longrightarrow> objs ?s1 b = objs s b" using as other by auto
      from step [OF sl1 top1 sr1 _ ch1 low b] show ?thesis using ot st True by simp
    qed
  qed
qed

lemma rep1_upper_rep:
  "rep1 (upper n0 a s) s a n \<Longrightarrow> n0 \<le> next_addr s \<Longrightarrow> a < next_addr s \<Longrightarrow>
   rep (\<lambda>b. b < next_addr s) s a n"
proof -
  assume r: "rep1 (upper n0 a s) s a n" and n: "n0 \<le> next_addr s" and a: "a < next_addr s"
  have "rep1 (\<lambda>b. b < next_addr s) s a n"
    using r by (rule rep1_mono_cong) (use n in \<open>auto simp: upper_def\<close>)
  then show ?thesis using a by (simp add: rep_iff)
qed

text \<open>
  \<open>Put_s\<close> on a store that holds the trie \<open>t\<close> returns a store that holds
  \<open>Put t key v\<close> at the new root.
\<close>

theorem Put_s_refines:
  "trie_rep s root_ptr t \<Longrightarrow> Put_s s root_ptr key v = (root', s') \<Longrightarrow>
   trie_rep s' root' (Put t key v)"
proof -
  assume tr: "trie_rep s root_ptr t" and P: "Put_s s root_ptr key v = (root', s')"
  define n0 where "n0 = next_addr s"
  define r0 where "r0 = (case root t of None \<Rightarrow> TrieNode [] | Some r \<Rightarrow> Clone r)"
  obtain fresh_root s0 where a0: "alloc (TrieNodeObj []) s = (fresh_root, s0)"
    by (cases "alloc (TrieNodeObj [] :: 'a obj) s")
  have fr: "fresh_root = n0" and ns0: "next_addr s0 = Suc n0"
    using next_alloc [OF a0] by (simp_all add: n0_def)
  have old0: "\<And>b. b < n0 \<Longrightarrow> objs s0 b = objs s b"
    using alloc_objs_old [OF a0] by (simp add: n0_def)
  obtain new_root s1 where a1:
    "(case root_ptr of None \<Rightarrow> (fresh_root, s0) | Some r \<Rightarrow> Clone_s r s0) = (new_root, s1)"
    by (cases "(case root_ptr of None \<Rightarrow> (fresh_root, s0) | Some r \<Rightarrow> Clone_s r s0)")
  have root1: "rep1 (\<lambda>b. b < n0) s1 new_root r0 \<and> n0 \<le> new_root \<and> new_root < next_addr s1 \<and>
               (\<forall>b < n0. objs s1 b = objs s b)"
  proof (cases root_ptr)
    case None
    then have "root t = None" using tr by (simp add: trie_rep_def)
    moreover have "new_root = fresh_root" "s1 = s0" using a1 None by simp_all
    ultimately show ?thesis using alloc_objs_new [OF a0] fr ns0 old0
      by (simp add: r0_def rep1_def children_at_def)
  next
    case (Some r)
    then obtain n where n: "root t = Some n" and rn: "rep (\<lambda>b. b < n0) s r n"
      using tr by (auto simp: trie_rep_def n0_def split: option.splits)
    have cl: "Clone_s r s0 = (new_root, s1)" using a1 Some by simp
    then have al: "alloc (objs s0 r) s0 = (new_root, s1)" by (simp add: Clone_s_def)
    have r: "r < n0" using rn by (simp add: rep_iff)
    have old1: "\<And>b. b < n0 \<Longrightarrow> objs s1 b = objs s b"
      using alloc_objs_old [OF al] old0 ns0 by simp
    have "objs s1 new_root = objs s r" using alloc_objs_new [OF al] old0 r by simp
    then have "rep1 (\<lambda>b. b < n0) s1 new_root n"
      using rep_rep1 [OF rn] old1 by (auto intro: rep1_transfer)
    then show ?thesis using next_alloc [OF al] ns0 old1 n by (simp add: r0_def)
  qed
  then have r1: "rep1 (\<lambda>b. b < n0) s1 new_root r0" and nr0: "n0 \<le> new_root"
    and nr1: "new_root < next_addr s1" and old1: "\<And>b. b < n0 \<Longrightarrow> objs s1 b = objs s b"
    by simp_all
  have n01: "n0 \<le> next_addr s1" using nr0 nr1 by simp
  show ?thesis
  proof (cases key)
    case Nil
    obtain tmp s2 where a2: "alloc (TrieNodeWithValueObj (children_at s1 new_root) v) s1 = (tmp, s2)"
      by (cases "alloc (TrieNodeWithValueObj (children_at s1 new_root) v) s1")
    have res: "root' = Some tmp" "s' = s2" using P a0 a1 a2 Nil by (auto simp: Put_s_def)
    have tmp: "tmp = next_addr s1" "next_addr s2 = Suc (next_addr s1)" using next_alloc [OF a2] by simp_all
    have k: "kids_rel (rep (\<lambda>b. b < n0) s1) (children_at s1 new_root) (children r0)"
      using r1 by (simp add: rep1_def)
    have "kids_rel (rep (\<lambda>b. b < next_addr s2) s2) (children_at s1 new_root) (children r0)"
      using k by (rule kids_rel_mono)
        (rule rep_mono_cong, assumption, use n01 tmp alloc_objs_old [OF a2] in auto)
    then have "rep (\<lambda>b. b < next_addr s2) s2 tmp (TrieNodeWithValue (children r0) v)"
      using alloc_objs_new [OF a2] tmp by (simp add: children_at_def kids_rel_def)
    then show ?thesis using res Nil
      by (simp add: trie_rep_def Put.simps r0_def)
  next
    case (Cons c rest)
    obtain c1 rest1 stack1 s2 where m: "put_match_s new_root c rest [] s1 = ((c1, rest1, stack1), s2)"
      by (metis prod_cases3 surj_pair)
    from put_match_sim [OF n01 stack_rel_Nil r1 m] obtain st1 where
      tm: "put_match r0 c rest [] = (c1, rest1, st1)" and sr1: "stack_rel n0 s2 stack1 st1"
      and old2: "\<forall>b < next_addr s1. objs s2 b = objs s1 b" and n12: "next_addr s1 \<le> next_addr s2"
      by auto
    from put_match_s_frame [OF le_refl _ m] have fs1: "fresh_stack (next_addr s1) stack1" by simp
    have n02: "n0 \<le> next_addr s2" using n01 n12 by simp
    obtain c2 rest2 stack2 s3 where f: "put_fresh_s c1 rest1 stack1 s2 = ((c2, rest2, stack2), s3)"
      by (metis prod_cases3 surj_pair)
    from put_fresh_sim [OF n02 sr1 f] obtain st2 where
      tf: "put_fresh c1 rest1 st1 = (c2, rest2, st2)" and sr2: "stack_rel n0 s3 stack2 st2"
      and old3: "\<forall>b < next_addr s2. objs s3 b = objs s2 b" and n23: "next_addr s2 \<le> next_addr s3"
      by auto
    from put_fresh_s_frame [OF n12 fs1 f] have fs2: "fresh_stack (next_addr s1) stack2" by simp
    obtain slot s4 where a4: "alloc (TrieNodeWithValueObj [] v) s3 = (slot, s4)"
      by (cases "alloc (TrieNodeWithValueObj [] v) s3")
    have slot: "slot = next_addr s3" and n4: "next_addr s4 = Suc (next_addr s3)"
      using next_alloc [OF a4] by simp_all
    have old4: "\<And>b. b < next_addr s3 \<Longrightarrow> objs s4 b = objs s3 b" using a4 by (rule alloc_objs_old)
    have sr4: "stack_rel n0 s4 stack2 st2"
      using sr2 by (rule stack_rel_cong)
        (use old4 n02 n23 n4 stack_rel_bounded [OF sr2] in auto)
    have sl4: "rep1 (upper n0 slot s4) s4 slot (TrieNodeWithValue [] v)"
      using alloc_objs_new [OF a4] by (simp add: rep1_def children_at_def)
    have below: "\<forall>x \<in> set stack2. snd x < slot" using stack_rel_bounded [OF sr2] slot by auto
    have n0s: "n0 \<le> slot" using slot n02 n23 by simp
    have n1s: "next_addr s1 \<le> slot" using slot n12 n23 by simp
    obtain key_char slot' s5 where b: "put_build_s (int (length key))
        (int (length key) - 1 - int (length rest2)) c2 slot stack2 s4 = ((key_char, slot'), s5)"
      by (metis surj_pair)
    have sl_n: "slot < next_addr s4" using slot n4 by simp
    from put_build_sim [OF sr4 sl4 below sl_n n0s b] obtain slot_t' where
      tb: "put_build (int (length key)) (int (length key) - 1 - int (length rest2)) c2
             (TrieNodeWithValue [] v) st2 = (key_char, slot_t')"
      and sl5: "rep1 (upper n0 slot' s5) s5 slot' slot_t'" and ss: "slot' \<le> slot"
      and n5: "next_addr s5 = next_addr s4" and old5: "\<forall>b. b < slot' \<longrightarrow> objs s5 b = objs s4 b"
      by auto
    from put_build_s_frame [OF n1s fs2 b] have n1s': "next_addr s1 \<le> slot'" by simp
    have nr_slot: "new_root < slot'" using nr1 n1s' by simp
    have same5: "\<And>b. b < next_addr s1 \<Longrightarrow> objs s5 b = objs s1 b"
      using old2 old3 old4 old5 n12 n23 n1s' by auto
    have r5: "rep1 (\<lambda>b. b < n0) s5 new_root r0"
      using r1 by (rule rep1_mono_cong) (use same5 nr1 n01 in auto)
    let ?s' = "write_children new_root (AList.update key_char slot' (children_at s5 new_root)) s5"
    let ?t' = "set_children r0 (AList.update key_char slot_t' (children r0))"
    have res: "root' = Some new_root" "s' = ?s'"
      using P a0 a1 Cons m f a4 b by (auto simp: Put_s_def)
    have "rep1 (upper n0 new_root ?s') ?s' new_root ?t'"
      using r5 sl5 nr0 nr_slot by (rule link_step) (use ss slot n4 n5 in simp)
    then have rr: "rep (\<lambda>b. b < next_addr ?s') ?s' new_root ?t'"
      by (rule rep1_upper_rep) (use n01 nr1 n12 n23 n4 n5 in simp_all)
    have "Put t key v = Trie (Some ?t')"
      unfolding Cons Put.simps Let_def r0_def [symmetric]
      using tb by (simp add: tm tf Cons split: option.split
                        del: put_match.simps put_fresh.simps put_build.simps)
    then show ?thesis using res rr by (simp add: trie_rep_def)
  qed
qed

lemma rep1_is_value: "rep1 P s a n \<Longrightarrow> obj_is_value_node (objs s a) = is_value_node n"
  by (cases n) (simp_all add: rep1_def)

lemma rep1_no_children: "rep1 P s a n \<Longrightarrow> (children_at s a = []) = (children n = [])"
  unfolding rep1_def using kids_rel_Nil_iff by blast

lemma rep1_dynamic_cast: "rep1 P s a n \<Longrightarrow> obj_dynamic_cast T (objs s a) = dynamic_cast T n"
  by (cases n; cases "objs s a") (simp_all add: rep1_def)

lemma get_walk_sim:
  "rep P s a n \<Longrightarrow> rel_option (rep P s) (get_walk_s s a ks) (get_walk n ks)"
proof (induction ks arbitrary: a n)
  case Nil
  then show ?case by simp
next
  case (Cons c ks)
  note ro = rep1_child [OF rep_rep1 [OF Cons.prems], of c]
  show ?case
  proof (cases "map_of (children_at s a) c")
    case None
    then show ?thesis using ro by simp
  next
    case (Some b)
    then obtain m where "map_of (children n) c = Some m" "rep P s b m"
      using ro by (auto simp: option_rel_Some1)
    then show ?thesis using Some Cons.IH by simp
  qed
qed

text \<open>
  \<open>Get_s\<close> on a store that holds the trie \<open>t\<close> returns what \<open>Get\<close> returns on \<open>t\<close>.
\<close>

theorem Get_s_refines: "trie_rep s root_ptr t \<Longrightarrow> Get_s T s root_ptr key = Get T t key"
proof (cases root_ptr)
  case None
  assume "trie_rep s root_ptr t"
  then show ?thesis using None by (simp add: trie_rep_def Get_s_def Get_def)
next
  case (Some r)
  assume "trie_rep s root_ptr t"
  then obtain n where n: "root t = Some n" and rn: "rep (\<lambda>b. b < next_addr s) s r n"
    using Some by (auto simp: trie_rep_def split: option.splits)
  note W = get_walk_sim [OF rn, of key]
  show ?thesis
  proof (cases "get_walk_s s r key")
    case None
    then show ?thesis using W Some n by (simp add: Get_s_def Get_def)
  next
    case (Some a)
    then obtain m where m: "get_walk n key = Some m" and rm: "rep (\<lambda>b. b < next_addr s) s a m"
      using W by (auto simp: option_rel_Some1)
    show ?thesis
      using Some m n \<open>root_ptr = Some r\<close>
        rep1_is_value [OF rep_rep1 [OF rm]] rep1_dynamic_cast [OF rep_rep1 [OF rm], of T]
      by (simp add: Get_s_def Get_def)
  qed
qed

lemma rm_walk_sim:
  "n0 \<le> next_addr s \<Longrightarrow> stack_rel n0 s ss st \<Longrightarrow> rm_walk_s ks ss s = Inr (res, s') \<Longrightarrow>
   (case res of
      None \<Rightarrow> rm_walk ks st = Inr None
    | Some ss' \<Rightarrow> (\<exists>st'. rm_walk ks st = Inr (Some st') \<and> stack_rel n0 s' ss' st' \<and>
                        length ss' = length ss + length ks)) \<and>
   (\<forall>b < next_addr s. objs s' b = objs s b) \<and> next_addr s \<le> next_addr s'"
proof (induction ks arbitrary: ss st s)
  case Nil
  then show ?case by auto
next
  case (Cons c ks)
  from Cons.prems(3) obtain tc a below where ss: "ss = (tc, a) # below" by (cases ss) auto
  from Cons.prems(2) obtain top_t st0 where st: "st = (tc, top_t) # st0"
    using stack_rel_Cons_left ss by blast
  have top: "rep1 (\<lambda>b. b < n0) s a top_t" using Cons.prems(2) by (simp add: ss st stack_rel_Cons)
  note ro = rep1_child [OF top, of c]
  show ?case
  proof (cases "map_of (children_at s a) c")
    case None
    then have "map_of (children top_t) c = None" using ro by simp
    then show ?thesis using None Cons.prems(3) ss st by auto
  next
    case (Some child)
    then obtain cn where cn: "map_of (children top_t) c = Some cn" and rc: "rep (\<lambda>b. b < n0) s child cn"
      using ro by (auto simp: option_rel_Some1)
    obtain slot s0 where cl: "Clone_s child s = (slot, s0)" by (cases "Clone_s child s")
    then have al: "alloc (objs s child) s = (slot, s0)" by (simp add: Clone_s_def)
    have slot: "slot = next_addr s" and n0': "next_addr s0 = Suc (next_addr s)"
      using next_alloc [OF al] by simp_all
    have old: "\<And>b. b < next_addr s \<Longrightarrow> objs s0 b = objs s b" using al by (rule alloc_objs_old)
    have r1: "rep1 (\<lambda>b. b < n0) s0 slot cn"
      using rep_rep1 [OF rc] alloc_objs_new [OF al] old Cons.prems(1)
      by (auto intro: rep1_transfer)
    have sr0: "stack_rel n0 s0 ss st"
      using Cons.prems(2) by (rule stack_rel_cong)
         (use old Cons.prems(1) stack_rel_bounded [OF Cons.prems(2)] n0' in auto)
    have sr: "stack_rel n0 s0 ((c, slot) # ss) ((c, cn) # st)"
      using sr0 r1 slot n0' Cons.prems(1) stack_rel_bounded [OF Cons.prems(2)]
      by (auto simp: stack_rel_Cons)
    have w: "rm_walk_s ks ((c, slot) # ss) s0 = Inr (res, s')"
      using Cons.prems(3) Some cl ss by simp
    have "n0 \<le> next_addr s0" using Cons.prems(1) n0' by simp
    from Cons.IH [OF this sr w]
    have 1: "(case res of
        None \<Rightarrow> rm_walk ks ((c, cn) # st) = Inr None
      | Some ss' \<Rightarrow> (\<exists>st'. rm_walk ks ((c, cn) # st) = Inr (Some st') \<and> stack_rel n0 s' ss' st' \<and>
                        length ss' = length ((c, slot) # ss) + length ks))"
      and 2: "\<forall>b < next_addr s0. objs s' b = objs s0 b" and 3: "next_addr s0 \<le> next_addr s'"
      by simp_all
    have tw: "rm_walk (c # ks) st = rm_walk ks ((c, cn) # st)" using cn st by simp
    show ?thesis using 1 2 3 old n0' unfolding tw by (auto split: option.splits)
  qed
qed

lemma erase_step:
  assumes top: "rep1 (\<lambda>b. b < n0) s a top_t" and a: "n0 \<le> a"
  shows "rep1 (\<lambda>b. b < n0) (write_children a (AList.delete c (children_at s a)) s) a
           (set_children top_t (AList.delete c (children top_t)))"
proof -
  let ?s' = "write_children a (AList.delete c (children_at s a)) s"
  have other: "\<And>b. b \<noteq> a \<Longrightarrow> objs ?s' b = objs s b" by (rule write_objs_other)
  have k: "kids_rel (rep (\<lambda>b. b < n0) s) (children_at s a) (children top_t)"
    using top by (simp add: rep1_def)
  have "kids_rel (rep (\<lambda>b. b < n0) ?s') (children_at s a) (children top_t)"
    using k by (rule kids_rel_mono) (rule rep_mono_cong, assumption, use a other in auto)
  then have "kids_rel (rep (\<lambda>b. b < n0) ?s') (AList.delete c (children_at s a))
               (AList.delete c (children top_t))"
    by (rule kids_rel_delete)
  then show ?thesis using rep1_same_kind [OF top] by (simp add: rep1_def)
qed

lemma stack_rel_erase:
  assumes sr: "stack_rel n0 s ((pc, parent) # ss) ((pc, parent_t) # st)"
  shows "stack_rel n0 (write_children parent (AList.delete c (children_at s parent)) s)
           ((pc, parent) # ss)
           ((pc, set_children parent_t (AList.delete c (children parent_t))) # st)"
proof -
  let ?s' = "write_children parent (AList.delete c (children_at s parent)) s"
  from sr have p: "rep1 (\<lambda>b. b < n0) s parent parent_t" and n: "n0 \<le> parent"
    and pn: "parent < next_addr s" and below: "\<forall>x \<in> set ss. snd x < parent"
    and sr': "stack_rel n0 s ss st"
    by (simp_all add: stack_rel_Cons)
  have "stack_rel n0 ?s' ss st"
    using sr' by (rule stack_rel_cong) (use n below in \<open>auto simp: write_objs_other\<close>)
  then show ?thesis using erase_step [OF p n] n pn below by (simp add: stack_rel_Cons)
qed

lemma rm_prune_sim:
  "stack_rel n0 s ss st \<Longrightarrow> rm_prune_s ss s = (ss', s') \<Longrightarrow>
   stack_rel n0 s' ss' (rm_prune st) \<and> next_addr s' = next_addr s \<and>
   (\<forall>b. (\<forall>x \<in> set ss. snd x \<noteq> b) \<longrightarrow> objs s' b = objs s b) \<and> (ss \<noteq> [] \<longrightarrow> ss' \<noteq> [])"
proof (induction ss s arbitrary: st rule: rm_prune_s.induct)
  case (1 char_key top_node pc parent stack_vec s)
  from "1.prems"(1) obtain top_t st1 where st1: "st = (char_key, top_t) # st1"
    using stack_rel_Cons_left by blast
  from "1.prems"(1) have sr1: "stack_rel n0 s ((pc, parent) # stack_vec) st1"
    and top: "rep1 (\<lambda>b. b < n0) s top_node top_t"
    by (simp_all add: st1 stack_rel_Cons)
  from sr1 obtain parent_t st2 where st2: "st1 = (pc, parent_t) # st2"
    using stack_rel_Cons_left by blast
  have cond: "(children_at s top_node = [] \<and> \<not> obj_is_value_node (objs s top_node)) =
              (children top_t = [] \<and> \<not> is_value_node top_t)"
    using rep1_no_children [OF top] rep1_is_value [OF top] by simp
  show ?case
  proof (cases "children_at s top_node = [] \<and> \<not> obj_is_value_node (objs s top_node)")
    case True
    let ?s1 = "write_children parent (AList.delete char_key (children_at s parent)) s"
    let ?p1 = "set_children parent_t (AList.delete char_key (children parent_t))"
    have sr2: "stack_rel n0 ?s1 ((pc, parent) # stack_vec) ((pc, ?p1) # st2)"
      using sr1 unfolding st2 by (rule stack_rel_erase)
    have r: "rm_prune_s ((pc, parent) # stack_vec) ?s1 = (ss', s')"
      using "1.prems"(2) True by simp
    from "1.IH" [OF True sr2 r] show ?thesis
      using True cond st1 st2 by (auto simp: write_objs_other)
  next
    case False
    then show ?thesis using "1.prems" cond st1 st2 by auto
  qed
next
  case (2 x s)
  then obtain y where "st = [y]" by (cases st) (auto simp: stack_rel_def)
  then show ?case using 2 by auto
next
  case (3 s)
  then have "st = []" by (simp add: stack_rel_Nil_left)
  then show ?case using 3 by auto
qed

lemma stack_rel_top: "stack_rel n0 s ss st \<Longrightarrow> ss \<noteq> [] \<Longrightarrow> top_rel n0 s ss st"
proof -
  assume sr: "stack_rel n0 s ss st" and ne: "ss \<noteq> []"
  then obtain c a ss' where ss: "ss = (c, a) # ss'" by (cases ss) auto
  then obtain n st' where st: "st = (c, n) # st'" using sr stack_rel_Cons_left by blast
  from sr have r: "rep1 (\<lambda>b. b < n0) s a n" by (simp add: ss st stack_rel_Cons)
  have "rep1 (upper n0 a s) s a n"
    using r by (rule rep1_mono_cong) (auto simp: upper_def)
  then show ?thesis using sr by (simp add: ss st stack_rel_Cons)
qed

lemma rm_delete_sim:
  "n0 \<le> next_addr s \<Longrightarrow> stack_rel n0 s ss st \<Longrightarrow> rm_delete_s ss s = Inr (ss', s') \<Longrightarrow>
   \<exists>st'. rm_delete st = Inr st' \<and> top_rel n0 s' ss' st' \<and> next_addr s \<le> next_addr s'"
proof -
  assume n0: "n0 \<le> next_addr s" and sr: "stack_rel n0 s ss st"
    and d: "rm_delete_s ss s = Inr (ss', s')"
  from d obtain ck a below where ss: "ss = (ck, a) # below"
    by (cases ss) (auto simp: rm_delete_s_def)
  from sr obtain top_t st0 where st: "st = (ck, top_t) # st0"
    using stack_rel_Cons_left ss by blast
  from sr have top: "rep1 (\<lambda>b. b < n0) s a top_t" and sr0: "stack_rel n0 s below st0"
    and an: "a < next_addr s"
    by (simp_all add: ss st stack_rel_Cons)
  note iv = rep1_is_value [OF top] and nc = rep1_no_children [OF top]
  show ?thesis
  proof (cases "obj_is_value_node (objs s a)")
    case False
    then have "ss' = ss" "s' = s" using d ss by (simp_all add: rm_delete_s_def)
    moreover have "rm_delete st = Inr st" using False iv st by (simp add: rm_delete_def)
    ultimately show ?thesis using stack_rel_top [OF sr] ss by auto
  next
    case True
    from d True ss obtain pc parent ss2 where below: "below = (pc, parent) # ss2"
      by (cases below) (auto simp: rm_delete_s_def split: if_splits)
    from sr0 obtain parent_t st2 where st0: "st0 = (pc, parent_t) # st2"
      using stack_rel_Cons_left below by blast
    from sr0 have p: "rep1 (\<lambda>b. b < n0) s parent parent_t" and pn0: "n0 \<le> parent"
      and pn: "parent < next_addr s" and below2: "\<forall>x \<in> set ss2. snd x < parent"
      and sr2: "stack_rel n0 s ss2 st2"
      by (simp_all add: below st0 stack_rel_Cons)
    show ?thesis
    proof (cases "children_at s a = []")
      case True
      let ?s1 = "write_children parent (AList.delete ck (children_at s parent)) s"
      let ?p1 = "set_children parent_t (AList.delete ck (children parent_t))"
      have r: "rm_prune_s ((pc, parent) # ss2) ?s1 = (ss', s')"
        using d ss below \<open>obj_is_value_node (objs s a)\<close> True by (simp add: rm_delete_s_def)
      have sr1: "stack_rel n0 ?s1 ((pc, parent) # ss2) ((pc, ?p1) # st2)"
        using sr0 unfolding below st0 by (rule stack_rel_erase)
      from rm_prune_sim [OF sr1 r]
      have "stack_rel n0 s' ss' (rm_prune ((pc, ?p1) # st2))" "ss' \<noteq> []"
        "next_addr s' = next_addr ?s1" by auto
      moreover have "rm_delete st = Inr (rm_prune ((pc, ?p1) # st2))"
        using \<open>obj_is_value_node (objs s a)\<close> True iv nc st st0 by (simp add: rm_delete_def)
      ultimately show ?thesis using stack_rel_top by fastforce
    next
      case False
      obtain plain s0 where al: "alloc (TrieNodeObj (children_at s a)) s = (plain, s0)"
        by (cases "alloc (TrieNodeObj (children_at s a) :: 'a obj) s")
      have plain: "plain = next_addr s" and ns0: "next_addr s0 = Suc (next_addr s)"
        using next_alloc [OF al] by simp_all
      have old: "\<And>b. b < next_addr s \<Longrightarrow> objs s0 b = objs s b" using al by (rule alloc_objs_old)
      let ?s1 = "write_children parent (AList.update ck plain (children_at s0 parent)) s0"
      let ?p1 = "set_children parent_t (AList.update ck (TrieNode (children top_t)) (children parent_t))"
      note ro = rep1_child [OF p, of ck]
      from d ss below \<open>obj_is_value_node (objs s a)\<close> False al
      have link: "map_of (children_at s parent) ck \<noteq> None" and res: "ss' = (pc, parent) # ss2" "s' = ?s1"
        by (auto simp: rm_delete_s_def split: option.splits)
      then have tlink: "map_of (children parent_t) ck \<noteq> None" using ro by (cases "map_of (children_at s parent) ck") (auto simp: option_rel_Some1)
      have td: "rm_delete st = Inr ((pc, ?p1) # st2)"
        using \<open>obj_is_value_node (objs s a)\<close> False iv nc st st0 tlink
        by (auto simp: rm_delete_def)
      have p0: "rep1 (\<lambda>b. b < n0) s0 parent parent_t"
        using p by (rule rep1_mono_cong) (use old pn n0 in auto)
      have k: "kids_rel (rep (\<lambda>b. b < n0) s) (children_at s a) (children top_t)"
        using top by (simp add: rep1_def)
      have "kids_rel (rep (upper n0 plain s0) s0) (children_at s a) (children top_t)"
        using k by (rule kids_rel_mono)
          (rule rep_mono_cong, assumption, use old n0 in \<open>auto simp: upper_def\<close>)
      then have pl: "rep1 (upper n0 plain s0) s0 plain (TrieNode (children top_t))"
        using alloc_objs_new [OF al] by (simp add: rep1_def children_at_def)
      have ch: "children_at s0 parent = children_at s0 parent" by simp
      have r1: "rep1 (upper n0 parent ?s1) ?s1 parent ?p1"
        using p0 pl pn0 by (rule link_step) (use pn plain ns0 in simp_all)
      have sr1: "stack_rel n0 ?s1 ss2 st2"
        using sr2 by (rule stack_rel_cong)
          (use old n0 below2 pn pn0 ns0 in \<open>auto simp: write_objs_other\<close>)
      have "top_rel n0 ?s1 ((pc, parent) # ss2) ((pc, ?p1) # st2)"
        using r1 sr1 pn0 pn ns0 below2 by simp
      then show ?thesis using td res ns0 by auto
    qed
  qed
qed

lemma rm_build_sim:
  "stack_rel n0 s ss st \<Longrightarrow> rep1 (upper n0 slot s) s slot slot_t \<Longrightarrow>
   \<forall>x \<in> set ss. snd x < slot \<Longrightarrow> slot < next_addr s \<Longrightarrow> n0 \<le> slot \<Longrightarrow>
   rm_build_s kc slot ss s = Inr (r, s') \<Longrightarrow>
   \<exists>r_t. rm_build kc slot_t st = Inr r_t \<and> rep1 (upper n0 r s') s' r r_t \<and>
         r < next_addr s' \<and> next_addr s' = next_addr s"
proof (induction ss arbitrary: st kc slot slot_t s)
  case Nil
  then have "st = []" by (simp add: stack_rel_Nil_left)
  then show ?case using Nil by auto
next
  case (Cons x ss)
  obtain c a where x: "x = (c, a)" by (cases x)
  from Cons.prems(1) obtain top_t st' where st: "st = (c, top_t) # st'"
    using stack_rel_Cons_left x by blast
  from Cons.prems(1) have top: "rep1 (\<lambda>b. b < n0) s a top_t" and a0: "n0 \<le> a"
    and an: "a < next_addr s" and below: "\<forall>x \<in> set ss. snd x < a" and sr: "stack_rel n0 s ss st'"
    by (simp_all add: x st stack_rel_Cons)
  have as: "a < slot" using Cons.prems(3) x by simp
  note ro = rep1_child [OF top, of kc]
  let ?s1 = "write_children a (AList.update kc slot (children_at s a)) s"
  let ?t1 = "set_children top_t (AList.update kc slot_t (children top_t))"
  from Cons.prems(6) x have link: "map_of (children_at s a) kc \<noteq> None"
    and b: "rm_build_s c a ss ?s1 = Inr (r, s')"
    by (auto split: option.splits)
  have tlink: "map_of (children top_t) kc \<noteq> None"
    using link ro by (cases "map_of (children_at s a) kc") (auto simp: option_rel_Some1)
  have r1: "rep1 (upper n0 a ?s1) ?s1 a ?t1"
    using top Cons.prems(2) a0 as Cons.prems(4) by (rule link_step)
  have sr1: "stack_rel n0 ?s1 ss st'"
    using sr by (rule stack_rel_cong) (use a0 below in \<open>auto simp: write_objs_other\<close>)
  from Cons.IH [OF sr1 r1 below _ a0 b] an obtain r_t where
    "rm_build c ?t1 st' = Inr r_t" "rep1 (upper n0 r s') s' r r_t" "r < next_addr s'"
    "next_addr s' = next_addr ?s1"
    by auto
  then show ?case using tlink st by auto
qed

lemma rm_finish_sim:
  "n0 \<le> next_addr s \<Longrightarrow> top_rel n0 s ss st \<Longrightarrow> rm_finish_s ss s = Inr (root', s') \<Longrightarrow>
   \<exists>t'. rm_finish st = Inr t' \<and> trie_rep s' root' t'"
proof -
  assume n0: "n0 \<le> next_addr s" and tr: "top_rel n0 s ss st"
    and f: "rm_finish_s ss s = Inr (root', s')"
  from tr obtain kc slot below slot_t st' where ss: "ss = (kc, slot) # below"
    and st: "st = (kc, slot_t) # st'"
    by (cases "(n0, s, ss, st)" rule: top_rel.cases) auto
  from tr have sl: "rep1 (upper n0 slot s) s slot slot_t" and s0: "n0 \<le> slot"
    and sn: "slot < next_addr s" and bel: "\<forall>x \<in> set below. snd x < slot"
    and sr: "stack_rel n0 s below st'"
    by (simp_all add: ss st)
  from f ss obtain r where b: "rm_build_s kc slot below s = Inr (r, s')"
    by (auto simp: rm_finish_s_def split: sum.splits if_splits)
  from rm_build_sim [OF sr sl bel sn s0 b] obtain r_t where
    tb: "rm_build kc slot_t st' = Inr r_t" and rr: "rep1 (upper n0 r s') s' r r_t"
    and rn: "r < next_addr s'" and nn: "next_addr s' = next_addr s"
    by auto
  have rep: "rep (\<lambda>b. b < next_addr s') s' r r_t"
    using rr by (rule rep1_upper_rep) (use n0 nn rn in simp_all)
  show ?thesis
    using f ss b tb st rep rep1_is_value [OF rr] rep1_no_children [OF rr]
    by (auto simp: rm_finish_s_def rm_finish_def trie_rep_def split: if_splits)
qed

text \<open>
  \<open>Remove_s\<close> on a store that holds the trie \<open>t\<close> returns, when it returns, a store
  that holds the result of \<open>Remove t key\<close> at the new root, and \<open>Remove\<close> does not fail
  either.
\<close>

theorem Remove_s_refines:
  "trie_rep s root_ptr t \<Longrightarrow> Remove_s s root_ptr key = Inr (root', s') \<Longrightarrow>
   \<exists>t'. Remove t key = Inr t' \<and> trie_rep s' root' t'"
proof (cases root_ptr)
  case None
  assume "trie_rep s root_ptr t" "Remove_s s root_ptr key = Inr (root', s')"
  then show ?thesis using None by (auto simp: trie_rep_def Remove_s_def Remove_def)
next
  case (Some r)
  assume tr: "trie_rep s root_ptr t" and R: "Remove_s s root_ptr key = Inr (root', s')"
  define n0 where "n0 = next_addr s"
  from tr Some obtain n where n: "root t = Some n" and rn: "rep (\<lambda>b. b < n0) s r n"
    by (auto simp: trie_rep_def n0_def split: option.splits)
  have r: "r < n0" using rn by (simp add: rep_iff)
  obtain new_root s0 where cl: "Clone_s r s = (new_root, s0)" by (cases "Clone_s r s")
  then have al: "alloc (objs s r) s = (new_root, s0)" by (simp add: Clone_s_def)
  have nr: "new_root = n0" and ns0: "next_addr s0 = Suc n0"
    using next_alloc [OF al] by (simp_all add: n0_def)
  have old0: "\<And>b. b < n0 \<Longrightarrow> objs s0 b = objs s b"
    using alloc_objs_old [OF al] by (simp add: n0_def)
  have r0: "rep1 (\<lambda>b. b < n0) s0 new_root n"
    using rep_rep1 [OF rn] alloc_objs_new [OF al] old0 by (auto intro: rep1_transfer)
  have sr0: "stack_rel n0 s0 [(CHR ''a'', new_root)] [(CHR ''a'', Clone n)]"
    using r0 nr ns0 by (simp add: stack_rel_Cons)
  have n00: "n0 \<le> next_addr s0" using ns0 by simp
  from R Some cl obtain res s1 where w: "rm_walk_s key [(CHR ''a'', new_root)] s0 = Inr (res, s1)"
    by (auto simp: Remove_s_def split: sum.splits)
  from rm_walk_sim [OF n00 sr0 w]
  have W: "(case res of
      None \<Rightarrow> rm_walk key [(CHR ''a'', Clone n)] = Inr None
    | Some ss' \<Rightarrow> (\<exists>st'. rm_walk key [(CHR ''a'', Clone n)] = Inr (Some st') \<and>
          stack_rel n0 s1 ss' st' \<and> length ss' = length [(CHR ''a'', new_root)] + length key))"
    and old1: "\<forall>b < next_addr s0. objs s1 b = objs s0 b" and n01: "next_addr s0 \<le> next_addr s1"
    by simp_all
  have n1: "n0 \<le> next_addr s1" using n00 n01 by simp
  have same1: "\<And>b. b < n0 \<Longrightarrow> objs s1 b = objs s b" using old0 old1 ns0 by simp
  have rn1: "rep1 (\<lambda>b. b < n0) s1 r n"
    using rep_rep1 [OF rn] by (rule rep1_mono_cong) (use same1 r in auto)
  show ?thesis
  proof (cases res)
    case None
    obtain nr2 s2 where cl2: "Clone_s r s1 = (nr2, s2)" by (cases "Clone_s r s1")
    then have al2: "alloc (objs s1 r) s1 = (nr2, s2)" by (simp add: Clone_s_def)
    have res: "root' = Some nr2" "s' = s2" using R Some cl w None cl2 by (auto simp: Remove_s_def)
    have "rep1 (\<lambda>b. b < next_addr s2) s2 nr2 n"
      using rn1 alloc_objs_new [OF al2]
      by (rule rep1_transfer) (use alloc_objs_old [OF al2] n1 next_alloc [OF al2] in auto)
    then have "rep (\<lambda>b. b < next_addr s2) s2 nr2 n"
      using next_alloc [OF al2] by (simp add: rep_iff)
    moreover have "Remove t key = Inr (Trie (Some (Clone n)))"
      using W None n by (simp add: Remove_def)
    ultimately show ?thesis using res by (simp add: trie_rep_def)
  next
    case (Some ss1)
    then obtain st1 where tw: "rm_walk key [(CHR ''a'', Clone n)] = Inr (Some st1)"
      and sr1: "stack_rel n0 s1 ss1 st1" and len: "length ss1 = 1 + length key"
      using W by auto
    have ne1: "ss1 \<noteq> []" using len by auto
    show ?thesis
    proof (cases "key = []")
      case True
      show ?thesis
      proof (cases "children_at s1 r = []")
        case True
        then have "root' = None" "s' = s1"
          using R \<open>root_ptr = Some r\<close> cl w Some \<open>key = []\<close> by (auto simp: Remove_s_def)
        moreover have "Remove t key = Inr (Trie None)"
          using tw n True \<open>key = []\<close> rep1_no_children [OF rn1] by (simp add: Remove_def)
        ultimately show ?thesis by (simp add: trie_rep_def)
      next
        case False
        obtain plain s2 where al2: "alloc (TrieNodeObj (children_at s1 r)) s1 = (plain, s2)"
          by (cases "alloc (TrieNodeObj (children_at s1 r) :: 'a obj) s1")
        have fin: "rm_finish_s ss1 s2 = Inr (root', s')"
          using R \<open>root_ptr = Some r\<close> cl w Some \<open>key = []\<close> False al2 by (simp add: Remove_s_def)
        have ns2: "next_addr s2 = Suc (next_addr s1)" using next_alloc [OF al2] by simp
        have sr2: "stack_rel n0 s2 ss1 st1"
          using sr1 by (rule stack_rel_cong)
            (use alloc_objs_old [OF al2] n1 ns2 stack_rel_bounded [OF sr1] in auto)
        have n2: "n0 \<le> next_addr s2" using n1 ns2 by simp
        from rm_finish_sim [OF n2 stack_rel_top [OF sr2 ne1] fin] obtain t' where
          "rm_finish st1 = Inr t'" "trie_rep s' root' t'" by blast
        moreover have "Remove t key = rm_finish st1"
          using tw n False \<open>key = []\<close> rep1_no_children [OF rn1] by (simp add: Remove_def)
        ultimately show ?thesis by auto
      qed
    next
      case False
      from R \<open>root_ptr = Some r\<close> cl w Some False obtain ss2 s2
        where d: "rm_delete_s ss1 s1 = Inr (ss2, s2)"
          and fin: "rm_finish_s ss2 s2 = Inr (root', s')"
        by (auto simp: Remove_s_def split: sum.splits)
      from rm_delete_sim [OF n1 sr1 d] obtain st2 where
        td: "rm_delete st1 = Inr st2" and tr2: "top_rel n0 s2 ss2 st2"
        and n12: "next_addr s1 \<le> next_addr s2" by blast
      have n2: "n0 \<le> next_addr s2" using n1 n12 by simp
      from rm_finish_sim [OF n2 tr2 fin] obtain t' where
        "rm_finish st2 = Inr t'" "trie_rep s' root' t'" by blast
      moreover have "Remove t key = rm_finish st2"
        using tw td n False by (simp add: Remove_def)
      ultimately show ?thesis by auto
    qed
  qed
qed

section \<open>Where Put and Remove lose data\<close>

text \<open>
  For a key that does not consist of one symbol, \<open>Put\<close> leaves every other key as it
  was; in particular the keys that extend the key keep their values.
\<close>

theorem Put_other_keys:
  "length k \<noteq> 1 \<Longrightarrow> k2 \<noteq> k \<Longrightarrow> Get T (Put t k v) k2 = Get T t k2"
proof (cases k)
  case Nil
  assume "k2 \<noteq> k"
  then obtain c2 r2 where k2: "k2 = c2 # r2" using Nil by (cases k2) auto
  show ?thesis unfolding Get_root_or_fresh [of T t]
    by (simp add: Nil k2 Put.simps Get_Some_root lookup_node_Cons split: option.split)
next
  case (Cons c rest)
  assume "length k \<noteq> 1" and ne: "k2 \<noteq> k"
  then obtain c' rest' where rest: "rest = c' # rest'" using Cons by (cases rest) auto
  show ?thesis unfolding Get_root_or_fresh [of T t]
    using lookup_node_put_node_other [of k2 c "c' # rest'"] ne
    by (simp add: Cons rest Put_Cons_Cons Get_Some_root del: put_node.simps)
qed

text \<open>
  For a key of one symbol \<open>c\<close>, \<open>Put\<close> stores the value, drops every longer key that
  starts with \<open>c\<close> and leaves the other keys as they were.
\<close>

theorem Put_single_symbol:
  "Get T (Put t [c] v) k2 =
     (if k2 = [c] then (if T = type_of v then Some v else None)
      else if k2 \<noteq> [] \<and> hd k2 = c then None
      else Get T t k2)"
proof (cases k2)
  case Nil
  then show ?thesis unfolding Get_root_or_fresh [of T t]
    by (simp add: Put_Cons_Nil Get_Some_root)
next
  case (Cons c2 r2)
  show ?thesis unfolding Get_root_or_fresh [of T t]
    by (cases r2) (auto simp: Cons Put_Cons_Nil Get_Some_root lookup_node_Nil lookup_node_Cons)
qed

text \<open>
  For a key that is not empty, the key is absent after \<open>Remove\<close>.
\<close>

theorem Remove_nonempty_key:
  "k \<noteq> [] \<Longrightarrow> \<exists>t'. Remove t k = Inr t' \<and> Get T t' k = None"
proof (cases t)
  case (Trie r0)
  assume ne: "k \<noteq> []"
  then obtain c ks where k: "k = c # ks" by (cases k) auto
  show ?thesis
  proof (cases r0)
    case None
    then show ?thesis using Trie by (simp add: Remove_None Get_None_root)
  next
    case (Some r)
    have R: "Remove t k = Inr (trie_of_removed r (remove_node r k))"
      using Trie Some k by (simp add: Remove_Cons)
    show ?thesis
    proof (cases "remove_node r k")
      case Interrupted
      from remove_node_Interrupted_same [OF this] show ?thesis
        using R Interrupted by (simp add: trie_of_removed_def Get_Some_root)
    next
      case Pruned
      then show ?thesis using R by (simp add: trie_of_removed_def Get_None_root)
    next
      case (Replaced r')
      from remove_node_Replaced_same [OF this] show ?thesis
        using R Replaced by (simp add: trie_of_removed_def Get_Some_root)
    qed
  qed
qed

text \<open>
  For the empty key, \<open>Remove\<close> returns the empty trie when the root has no children
  and the receiver itself, root value included, otherwise.
\<close>

theorem Remove_empty_key:
  "Remove t [] =
     Inr (case root t of
            None \<Rightarrow> Trie None
          | Some r \<Rightarrow> if children r = [] then Trie None else t)"
  by (cases t) (simp add: Remove_None Remove_Nil split: option.split)

section \<open>The claims\<close>

text \<open>
  C10: on the default-constructed trie, whose root is the null pointer, \<open>Get\<close> is absent
  for every key, the empty key included, and for every requested type.
\<close>

theorem Get_empty_trie: "Get T (Trie None) key = None"
  by (simp add: Get_def)

text \<open>
  C2 (round trip): for every trie, key and value, looking the key up in the result of
  \<open>Put\<close>, at the type of the value, returns that value; this includes the empty key.
\<close>

theorem Put_Get_roundtrip: "Get (type_of v) (Put t k v) k = Some v"
  by (rule Get_Put_same_aux)

text \<open>
  C9 (empty key): \<open>Put\<close> with the empty key returns a trie whose root is a value node
  that carries the value and has exactly the children of the root of the receiver, and no
  children when the receiver is the empty trie.
\<close>

theorem Put_empty_key:
  "Put t [] v =
     Trie (Some (TrieNodeWithValue (case root t of None \<Rightarrow> [] | Some r \<Rightarrow> children r) v))"
  by (simp add: Put.simps split: option.split)

text \<open>
  C7 (type mismatch): when a key holds a value of type \<open>T1\<close>, so that \<open>Get\<close> at
  \<open>T1\<close> returns it, \<open>Get\<close> at any other type returns absent. \<open>Get\<close> is a total
  function into \<open>option\<close>, so absent is its only other result.
\<close>

theorem Get_type_mismatch:
  "Get T1 t k = Some v \<Longrightarrow> T2 \<noteq> T1 \<Longrightarrow> Get T2 t k = None"
proof -
  have "dynamic_cast T1 n = Some v \<Longrightarrow> T2 \<noteq> T1 \<Longrightarrow> dynamic_cast T2 n = None"
    for n :: "'a node"
    by (cases n) (auto split: if_splits)
  then show "Get T1 t k = Some v \<Longrightarrow> T2 \<noteq> T1 \<Longrightarrow> Get T2 t k = None"
    by (auto simp: Get_def split: option.splits if_splits)
qed

text \<open>
  The example of C7: after \<^verbatim>\<open>Put<uint32_t>(k, 5)\<close>, \<^verbatim>\<open>Get<std::string>(k)\<close> is absent.
\<close>

theorem Get_type_mismatch_witness:
  "Get T_uint32 (Put (Trie None :: unit trie) ''k'' (U32 5)) ''k'' = Some (U32 5) \<and>
   T_string \<noteq> T_uint32 \<and>
   Get T_string (Put (Trie None :: unit trie) ''k'' (U32 5)) ''k'' = None"
proof -
  have g: "Get T_uint32 (Put (Trie None :: unit trie) ''k'' (U32 5)) ''k'' = Some (U32 5)"
    by (simp add: Put.simps Get_def)
  have d: "T_string \<noteq> T_uint32" by simp
  show ?thesis using g d Get_type_mismatch [OF g d] by simp
qed

text \<open>
  C8 (frame of \<open>Remove\<close>): \<open>Remove\<close> returns a trie, and every key other than the
  removed one is looked up in that trie, at every type, with the result it has in the
  receiver.
\<close>

theorem Remove_other_keys:
  "k2 \<noteq> k \<Longrightarrow> \<exists>t'. Remove t k = Inr t' \<and> Get T t' k2 = Get T t k2"
  using Remove_total [of t k] Get_Remove_other [of k2 k t] by blast

text \<open>
  The example of C8, on the trie that holds 3 at \<^verbatim>\<open>"a"\<close> and 2 at \<^verbatim>\<open>"ab"\<close>: after
  \<^verbatim>\<open>Remove("ab")\<close> the key \<^verbatim>\<open>"a"\<close> still yields 3.
\<close>

theorem Remove_other_keys_witness:
  "''a'' \<noteq> ''ab'' \<and>
   Remove (Trie (Some (TrieNode [(CHR ''a'',
        TrieNodeWithValue [(CHR ''b'', TrieNodeWithValue [] (U32 2))] (U32 3 :: unit val))])))
     ''ab''
   = Inr (Trie (Some (TrieNode [(CHR ''a'', TrieNodeWithValue [] (U32 3))]))) \<and>
   (\<exists>t'. Remove (Trie (Some (TrieNode [(CHR ''a'',
        TrieNodeWithValue [(CHR ''b'', TrieNodeWithValue [] (U32 2))] (U32 3 :: unit val))])))
        ''ab'' = Inr t' \<and>
      Get T_uint32 t' ''a'' = Some (U32 3))"
proof -
  have ne: "''a'' \<noteq> ''ab''" by simp
  show ?thesis
    using Remove_other_keys [OF ne, of
      "Trie (Some (TrieNode [(CHR ''a'',
         TrieNodeWithValue [(CHR ''b'', TrieNodeWithValue [] (U32 2))] (U32 3 :: unit val))]))"
      T_uint32]
    by (simp add: Remove_def rm_delete_def rm_finish_def Get_def)
qed

text \<open>
  C6 (absent key): \<open>Remove\<close> never fails; on the empty trie it returns the empty trie;
  and when the key holds no value in the receiver (the walk is interrupted, the key ends
  on a plain node, or the receiver is empty) every \<open>Get\<close> on the result equals the
  same \<open>Get\<close> on the receiver.
\<close>

theorem Remove_absent_key:
  "(\<exists>t'. Remove t k = Inr t') \<and>
   Remove (Trie None) k = Inr (Trie None) \<and>
   (\<not> holds_value t k \<longrightarrow>
      (\<exists>t'. Remove t k = Inr t' \<and> (\<forall>T k2. Get T t' k2 = Get T t k2)))"
  using Remove_total [of t k] Remove_None [of k] Get_Remove_absent [of t k] by blast

text \<open>
  An instance of C6 with an interrupted walk: the trie holds 1 at \<^verbatim>\<open>"a"\<close> and the key
  \<^verbatim>\<open>"ab"\<close> is removed.
\<close>

theorem Remove_absent_key_witness:
  "\<not> holds_value (Trie (Some (TrieNode [(CHR ''a'', TrieNodeWithValue [] (U32 1 :: unit val))])))
       ''ab'' \<and>
   (\<exists>t'. Remove (Trie (Some (TrieNode [(CHR ''a'', TrieNodeWithValue [] (U32 1 :: unit val))])))
            ''ab'' = Inr t' \<and>
      (\<forall>T k2. Get T t' k2 =
         Get T (Trie (Some (TrieNode [(CHR ''a'', TrieNodeWithValue [] (U32 1 :: unit val))]))) k2))"
proof -
  have nh: "\<not> holds_value
      (Trie (Some (TrieNode [(CHR ''a'', TrieNodeWithValue [] (U32 1 :: unit val))]))) ''ab''"
    by (simp add: holds_value_def node_holds_def)
  show ?thesis
    using nh Remove_absent_key
      [of "Trie (Some (TrieNode [(CHR ''a'', TrieNodeWithValue [] (U32 1 :: unit val))]))" "''ab''"]
    by blast
qed

text \<open>
  C5 (dead-node invariant): every list of \<open>Put\<close> and \<open>Remove\<close> calls, started on the
  empty trie, runs without failure and ends in a trie in which no node reachable from the
  root is a plain node without children.
\<close>

theorem reachable_no_dead_node:
  "\<exists>t. apply_ops (Trie None) ops = Inr t \<and> no_dead_trie t"
  by (rule apply_ops_no_dead) (simp add: no_dead_trie_def)

text \<open>
  The second half of C5 on an unbranching chain: after \<^verbatim>\<open>Put("abc", 1)\<close> on the empty
  trie, \<^verbatim>\<open>Remove("abc")\<close> prunes the three nodes of the chain and the root.
\<close>

theorem reachable_no_dead_node_witness:
  "apply_ops (Trie None :: unit trie) [OpPut ''abc'' (U32 1), OpRemove ''abc''] = Inr (Trie None) \<and>
   (\<exists>t. apply_ops (Trie None :: unit trie) [OpPut ''abc'' (U32 1), OpRemove ''abc''] = Inr t \<and>
        no_dead_trie t)"
  using reachable_no_dead_node [of "[OpPut ''abc'' (U32 1), OpRemove ''abc'']"]
  by (simp add: Put.simps Remove_def rm_finish_def rm_delete_def)

text \<open>
  C1 fails for a key of one symbol: the stack is then empty, the third loop of \<open>Put\<close>,
  which is the only place where the new value node takes over the children of the node it
  replaces (line 92), is not entered, and lines 104 to 106 put the childless value node
  into the root. With \<^verbatim>\<open>T2 = empty.Put("a", 1).Put("ab", 2)\<close>, the key \<^verbatim>\<open>"ab"\<close> yields 2
  in \<^verbatim>\<open>T2\<close> and is absent in \<^verbatim>\<open>T2.Put("a", 3)\<close>.
\<close>

theorem Put_single_symbol_drops_children:
  "Get T_uint32 (Put (Put (Trie None :: unit trie) ''a'' (U32 1)) ''ab'' (U32 2)) ''ab''
     = Some (U32 2) \<and>
   Put (Put (Put (Trie None :: unit trie) ''a'' (U32 1)) ''ab'' (U32 2)) ''a'' (U32 3)
     = Trie (Some (TrieNode [(CHR ''a'', TrieNodeWithValue [] (U32 3))])) \<and>
   Get T_uint32
     (Put (Put (Put (Trie None :: unit trie) ''a'' (U32 1)) ''ab'' (U32 2)) ''a'' (U32 3)) ''ab''
     = None \<and>
   Get T_uint32
     (Put (Put (Put (Trie None :: unit trie) ''a'' (U32 1)) ''ab'' (U32 2)) ''a'' (U32 3)) ''a''
     = Some (U32 3)"
  by (simp add: Put.simps Get_def)

text \<open>
  C3 fails for the empty key on a root that has children: line 143 builds the plain root,
  line 174 overwrites it with the clone of the old root, value included. On the trie that
  holds 1 at \<^verbatim>\<open>"a"\<close>, \<^verbatim>\<open>Put("", 5)\<close> followed by \<^verbatim>\<open>Remove("")\<close> still yields 5 at the
  empty key.
\<close>

theorem Remove_empty_key_keeps_value:
  "Remove (Put (Put (Trie None :: unit trie) ''a'' (U32 1)) [] (U32 5)) []
     = Inr (Trie (Some (TrieNodeWithValue [(CHR ''a'', TrieNodeWithValue [] (U32 1))] (U32 5)))) \<and>
   Get T_uint32
     (Trie (Some (TrieNodeWithValue [(CHR ''a'', TrieNodeWithValue [] (U32 1 :: unit val))] (U32 5))))
     [] = Some (U32 5)"
  by (simp add: Put.simps Remove_def rm_finish_def Get_def)

text \<open>
  C4 (the receiver is not written to): in a well-formed store, \<open>Put\<close> and \<open>Remove\<close>
  return a result, the store they return is well formed for the new root, every object
  that was allocated before the call is unchanged in it, and \<open>Get\<close> from the old root
  returns in it, for every key and type, what it returned before the call.
\<close>

theorem versions_unchanged:
  "wf_store s root_ptr \<Longrightarrow>
   (\<exists>root' s'. Put_s s root_ptr k v = (root', s') \<and> wf_store s' root' \<and>
      (\<forall>a < next_addr s. objs s' a = objs s a) \<and>
      Get_s T s' root_ptr k2 = Get_s T s root_ptr k2) \<and>
   (\<exists>root' s'. Remove_s s root_ptr k = Inr (root', s') \<and> wf_store s' root' \<and>
      (\<forall>a < next_addr s. objs s' a = objs s a) \<and>
      Get_s T s' root_ptr k2 = Get_s T s root_ptr k2)"
proof
  assume wf: "wf_store s root_ptr"
  obtain root' s' where P: "Put_s s root_ptr k v = (root', s')" by (cases "Put_s s root_ptr k v")
  have f: "frame (next_addr s) s s'" using P by (rule Put_s_frame)
  have "wf_store s' root'" using wf P by (rule Put_s_wf)
  moreover have "\<forall>a < next_addr s. objs s' a = objs s a" using f by (simp add: frame_def)
  moreover have "Get_s T s' root_ptr k2 = Get_s T s root_ptr k2" using wf f by (rule Get_s_frame)
  ultimately show "\<exists>root' s'. Put_s s root_ptr k v = (root', s') \<and> wf_store s' root' \<and>
      (\<forall>a < next_addr s. objs s' a = objs s a) \<and>
      Get_s T s' root_ptr k2 = Get_s T s root_ptr k2"
    using P by blast
next
  assume wf: "wf_store s root_ptr"
  obtain root' s' where R: "Remove_s s root_ptr k = Inr (root', s')"
    using Remove_s_total by blast
  have f: "frame (next_addr s) s s'" using R by (rule Remove_s_frame)
  have "wf_store s' root'" using wf R by (rule Remove_s_wf)
  moreover have "\<forall>a < next_addr s. objs s' a = objs s a" using f by (simp add: frame_def)
  moreover have "Get_s T s' root_ptr k2 = Get_s T s root_ptr k2" using wf f by (rule Get_s_frame)
  ultimately show "\<exists>root' s'. Remove_s s root_ptr k = Inr (root', s') \<and> wf_store s' root' \<and>
      (\<forall>a < next_addr s. objs s' a = objs s a) \<and>
      Get_s T s' root_ptr k2 = Get_s T s root_ptr k2"
    using R by blast
qed

text \<open>
  An instance of C4: the store holds the trie with 1 at \<^verbatim>\<open>"a"\<close>, rooted at address 0. After
  \<^verbatim>\<open>Put("a", 3)\<close> the old root still yields 1 and the new root yields 3.
\<close>

theorem versions_unchanged_witness:
  "wf_store example_store (Some 0) \<and>
   (\<exists>root' s'. Put_s example_store (Some 0) ''a'' (U32 3) = (root', s') \<and>
      Get_s T_uint32 s' (Some 0) ''a'' = Some (U32 1) \<and>
      Get_s T_uint32 s' root' ''a'' = Some (U32 3))"
proof -
  have wf: "wf_store example_store (Some 0)"
    by (auto simp: wf_store_def closed_def example_store_def children_at_def less_Suc_eq
             numeral_2_eq_2)
  have g: "Get_s T_uint32 example_store (Some 0) ''a'' = Some (U32 1)"
    by (simp add: Get_s_def example_store_def children_at_def)
  have g': "Get_s T_uint32 (snd (Put_s example_store (Some 0) ''a'' (U32 3)))
              (fst (Put_s example_store (Some 0) ''a'' (U32 3))) ''a'' = Some (U32 3)"
    by (simp add: Put_s_def Get_s_def example_store_def alloc_def Clone_s_def write_children_def
             children_at_def)
  from versions_unchanged [OF wf, of "''a''" "U32 3" T_uint32 "''a''"] obtain root' s'
    where P: "Put_s example_store (Some 0) ''a'' (U32 3) = (root', s')"
      and G: "Get_s T_uint32 s' (Some 0) ''a'' = Get_s T_uint32 example_store (Some 0) ''a''"
    by blast
  show ?thesis using wf P G g g' by simp
qed


end
